theory Spec2Isabelle
  imports Main "HOL-Library.Sublist"
begin

section \<open>Strings and the Python runtime\<close>

text \<open>
  A Python \<open>str\<close> is a sequence of Unicode code points, and \<open>len\<close> counts code points.
  The documents and the messages of \<open>tools/docs_rag.py\<close> are Cyrillic as well as ASCII,
  so a string is a list of code points here, each a natural number. \<open>lit\<close> turns an ASCII
  literal into that form.
\<close>

type_synonym str = "nat list"

definition lit :: "string \<Rightarrow> str" where
  "lit s = map of_char s"

text \<open>
  \<open>str.lower\<close>, the character classes \<open>\s\<close> and \<open>\w\<close> of \<open>re\<close> (which are also what
  \<open>str.strip\<close> removes and what a word character is) and \<open>repr\<close> read the Unicode
  tables of the interpreter. The tables are no part of the repository, so every function
  below takes them as a parameter and every theorem holds for all tables. \<open>str.lower\<close>
  is a function of the whole string: it may change the length of a string and depends on
  the context of a letter.
\<close>

record pyrt =
  str_lower :: "str \<Rightarrow> str"
  is_space :: "nat \<Rightarrow> bool"
  is_word :: "nat \<Rightarrow> bool"
  str_repr :: "str \<Rightarrow> str"

subsection \<open>\<open>str.count\<close>, \<open>str.strip\<close>, \<open>str.join\<close>, slices\<close>

text \<open>
  \<open>text.count(sub)\<close>: the number of non-overlapping occurrences of \<open>sub\<close>, found from
  left to right; after a match the scan goes on behind the match. For the empty \<open>sub\<close>
  Python answers \<open>len(text) + 1\<close>.
\<close>

function count_str :: "str \<Rightarrow> str \<Rightarrow> nat" where
  "count_str t sub =
     (if sub = [] then length t + 1
      else if length t < length sub then 0
      else if take (length sub) t = sub then 1 + count_str (drop (length sub) t) sub
      else count_str (tl t) sub)"
  by pat_completeness auto
termination
  by (relation "measure (\<lambda>(t, sub). length t)") (auto simp: neq_Nil_conv)

declare count_str.simps [simp del]

text \<open>\<open>s.strip()\<close>: white space removed at both ends.\<close>

definition strip :: "(nat \<Rightarrow> bool) \<Rightarrow> str \<Rightarrow> str" where
  "strip sp s = rev (dropWhile sp (rev (dropWhile sp s)))"

text \<open>\<open>sep.join(xs)\<close>.\<close>

fun join :: "str \<Rightarrow> str list \<Rightarrow> str" where
  "join sep [] = []"
| "join sep [x] = x"
| "join sep (x # y # ys) = x @ sep @ join sep (y # ys)"

text \<open>
  \<open>xs[:n]\<close> for a Python integer \<open>n\<close>: the first \<open>n\<close> elements, and for a negative \<open>n\<close>
  all but the last \<open>-n\<close>.
\<close>

definition slice_to :: "int \<Rightarrow> 'a list \<Rightarrow> 'a list" where
  "slice_to n xs =
     (if 0 \<le> n then take (nat n) xs else take (length xs - nat (- n)) xs)"

subsection \<open>The two regular expressions\<close>

text \<open>
  \<open>re.findall(r"\w+", s)\<close>: the maximal runs of word characters of \<open>s\<close>, from left to
  right.
\<close>

function findall_words :: "(nat \<Rightarrow> bool) \<Rightarrow> str \<Rightarrow> str list" where
  "findall_words w [] = []"
| "findall_words w (c # cs) =
     (if w c then takeWhile w (c # cs) # findall_words w (dropWhile w cs)
      else findall_words w cs)"
  by pat_completeness auto
termination
  by (relation "measure (\<lambda>(w, s). length s)")
     (auto simp: less_Suc_eq_le length_dropWhile_le)

text \<open>
  \<open>re.split(r"\n\s*\n", content)\<close>. A separator starts at a line feed (code point 10).
  \<open>match_sep\<close> is the rest of the pattern, \<open>\s*\n\<close>, matched against what follows that
  line feed, as the backtracking matcher does it: \<open>\s*\<close> is greedy, so it first takes the
  next character when that is white space and tries the rest; when that fails it gives
  the character back and the character itself has to be the closing line feed. The
  answer is the text behind the separator. \<open>re_split\<close> scans for the leftmost separator,
  closes the piece collected so far and goes on behind the separator.
\<close>

fun match_sep :: "(nat \<Rightarrow> bool) \<Rightarrow> str \<Rightarrow> str option" where
  "match_sep sp [] = None"
| "match_sep sp (c # cs) =
     (case (if sp c then match_sep sp cs else None) of
        Some r \<Rightarrow> Some r
      | None \<Rightarrow> if c = 10 then Some cs else None)"

lemma match_sep_length: "match_sep sp s = Some r \<Longrightarrow> length r < length s"
  by (induction s) (auto split: option.splits if_splits)

function re_split :: "(nat \<Rightarrow> bool) \<Rightarrow> str \<Rightarrow> str \<Rightarrow> str list" where
  "re_split sp piece [] = [piece]"
| "re_split sp piece (c # cs) =
     (if c = 10 then
        (case match_sep sp cs of
           Some r \<Rightarrow> piece # re_split sp [] r
         | None \<Rightarrow> re_split sp (piece @ [c]) cs)
      else re_split sp (piece @ [c]) cs)"
  by pat_completeness auto
termination
  by (relation "measure (\<lambda>(sp, piece, s). length s)")
     (auto dest: match_sep_length)

section \<open>The paragraph scorer\<close>

text \<open>
  \<open>_simple_score(text, query)\<close>: both strings are lowered, the query is cut into its
  words, a list in which a repeated word stands as often as the query has it, and the
  counts of the words in the text are added up. The filter \<open>if tok\<close> drops empty words.
\<close>

definition simple_score :: "pyrt \<Rightarrow> str \<Rightarrow> str \<Rightarrow> int" where
  "simple_score U txt query =
     (let text_lower = str_lower U txt;
          tokens = findall_words (is_word U) (str_lower U query)
      in sum_list (map (\<lambda>tok. int (count_str text_lower tok))
                       (filter (\<lambda>tok. tok \<noteq> []) tokens)))"

text \<open>
  A snippet is the dictionary \<open>{"file": ..., "score": ..., "snippet": ...}\<close> that
  \<open>_search_in_file\<close> builds. The score is a Python integer.
\<close>

record snippet =
  file_str :: str
  score :: int
  snippet :: str

text \<open>
  A path is the list of the components of an absolute POSIX path; \<open>str(path)\<close> puts a
  slash before each component. A relative path (what \<open>relative_to\<close> answers) is a list
  of components too, printed with slashes between them, and \<open>.\<close> when it is empty.
\<close>

type_synonym path = "str list"

definition str_path :: "path \<Rightarrow> str" where
  "str_path p = (if p = [] then lit ''/'' else concat (map (\<lambda>c. lit ''/'' @ c) p))"

definition str_rel_path :: "str list \<Rightarrow> str" where
  "str_rel_path r = (if r = [] then lit ''.'' else join (lit ''/'') r)"

subsection \<open>Exceptions, and reading a file\<close>

text \<open>
  The exceptions that the functions of \<open>docs_rag.py\<close> can meet: an \<open>OSError\<close> with its
  error number from a call of the operating system (\<open>PermissionError\<close> is the \<open>OSError\<close>
  with \<open>EACCES\<close>, \<open>FileNotFoundError\<close> the one with \<open>ENOENT\<close>), the \<open>RuntimeError\<close> that
  \<open>Path.resolve\<close> raises for a loop of symbolic links, and the \<open>UnicodeDecodeError\<close> of
  a codec. A function that can raise returns \<open>Inl\<close> of the exception.
\<close>

datatype errno = ENOENT | ENOTDIR | EBADF | ELOOP | EACCES | EISDIR | EIO

datatype exc = OSError errno | RuntimeError | UnicodeDecodeError

text \<open>
  The UTF-8 codec, \<open>bytes.decode("utf-8", errors)\<close>, with the two error handlers
  \<open>strict\<close> (the default) and \<open>ignore\<close>. A byte is a natural number. \<open>utf8_step\<close> reads
  one code point from the front of the bytes, or finds a range that cannot be decoded
  and answers the bytes behind that range: a byte that cannot start a sequence is a
  range of its own; a sequence broken by a byte that cannot continue it is a range that
  ends before that byte; a sequence that the end of the data cuts short is a range up to
  the end. The second byte of a sequence is limited further after the lead bytes
  \<open>E0\<close>, \<open>ED\<close>, \<open>F0\<close> and \<open>F4\<close> (no overlong forms, no surrogates, nothing above
  \<open>U+10FFFF\<close>).
\<close>

datatype error_handler = Strict | Ignore

datatype step = Decoded nat "nat list" | Invalid "nat list"

definition is_cont :: "nat \<Rightarrow> bool" where
  "is_cont b = (128 \<le> b \<and> b \<le> 191)"

definition second_ok :: "nat \<Rightarrow> nat \<Rightarrow> bool" where
  "second_ok b0 b1 =
     (if b0 = 224 then 160 \<le> b1 \<and> b1 \<le> 191
      else if b0 = 237 then 128 \<le> b1 \<and> b1 \<le> 159
      else if b0 = 240 then 144 \<le> b1 \<and> b1 \<le> 191
      else if b0 = 244 then 128 \<le> b1 \<and> b1 \<le> 143
      else is_cont b1)"

fun utf8_step :: "nat \<Rightarrow> nat list \<Rightarrow> step" where
  "utf8_step b0 bs =
     (if b0 < 128 then Decoded b0 bs
      else if 194 \<le> b0 \<and> b0 \<le> 223 then
        (case bs of
           [] \<Rightarrow> Invalid []
         | b1 # r1 \<Rightarrow>
             if is_cont b1 then Decoded ((b0 - 192) * 64 + (b1 - 128)) r1
             else Invalid bs)
      else if 224 \<le> b0 \<and> b0 \<le> 239 then
        (case bs of
           [] \<Rightarrow> Invalid []
         | b1 # r1 \<Rightarrow>
             if \<not> second_ok b0 b1 then Invalid bs
             else
               (case r1 of
                  [] \<Rightarrow> Invalid []
                | b2 # r2 \<Rightarrow>
                    if is_cont b2
                    then Decoded ((b0 - 224) * 4096 + (b1 - 128) * 64 + (b2 - 128)) r2
                    else Invalid r1))
      else if 240 \<le> b0 \<and> b0 \<le> 244 then
        (case bs of
           [] \<Rightarrow> Invalid []
         | b1 # r1 \<Rightarrow>
             if \<not> second_ok b0 b1 then Invalid bs
             else
               (case r1 of
                  [] \<Rightarrow> Invalid []
                | b2 # r2 \<Rightarrow>
                    if \<not> is_cont b2 then Invalid r1
                    else
                      (case r2 of
                         [] \<Rightarrow> Invalid []
                       | b3 # r3 \<Rightarrow>
                           if is_cont b3
                           then Decoded ((b0 - 240) * 262144 + (b1 - 128) * 4096
                                         + (b2 - 128) * 64 + (b3 - 128)) r3
                           else Invalid r2)))
      else Invalid bs)"

declare utf8_step.simps [simp del]

lemma utf8_step_Decoded_length: "utf8_step b0 bs = Decoded c r \<Longrightarrow> length r \<le> length bs"
  by (auto simp: utf8_step.simps split: if_splits list.splits)

lemma utf8_step_Invalid_length: "utf8_step b0 bs = Invalid r \<Longrightarrow> length r \<le> length bs"
  by (auto simp: utf8_step.simps split: if_splits list.splits)

text \<open>
  The decoder: a range that cannot be decoded raises \<open>UnicodeDecodeError\<close> under
  \<open>strict\<close> and is passed over under \<open>ignore\<close>.
\<close>

function utf8_decode :: "error_handler \<Rightarrow> nat list \<Rightarrow> exc + str" where
  "utf8_decode h [] = Inr []"
| "utf8_decode h (b0 # bs) =
     (case utf8_step b0 bs of
        Decoded c r \<Rightarrow>
          (case utf8_decode h r of Inl x \<Rightarrow> Inl x | Inr s \<Rightarrow> Inr (c # s))
      | Invalid r \<Rightarrow>
          (case h of Strict \<Rightarrow> Inl UnicodeDecodeError | Ignore \<Rightarrow> utf8_decode h r))"
  by pat_completeness auto
termination
  by (relation "measure (\<lambda>(h, bs). length bs)")
     (auto simp: less_Suc_eq_le dest: utf8_step_Decoded_length utf8_step_Invalid_length)

text \<open>
  A file opened in text mode translates the line ends \<open>\r\n\<close> and \<open>\r\<close> to \<open>\n\<close>.
\<close>

fun universal_newlines :: "str \<Rightarrow> str" where
  "universal_newlines [] = []"
| "universal_newlines [c] = [if c = 13 then 10 else c]"
| "universal_newlines (c # d # s) =
     (if c = 13 \<and> d = 10 then 10 # universal_newlines s
      else if c = 13 then 10 # universal_newlines (d # s)
      else c # universal_newlines (d # s))"

text \<open>
  A document as \<open>_search_in_file\<close> meets it: its path, and what opening and reading
  the file gives, the \<open>OSError\<close> of the operating system or the bytes of the file.
  \<open>path.read_text(encoding="utf-8", errors=h)\<close> raises that \<open>OSError\<close>, or decodes the
  bytes with the handler \<open>h\<close> and translates the line ends.
\<close>

record doc_file =
  doc_path :: path
  read_bytes :: "errno + nat list"

definition read_text :: "error_handler \<Rightarrow> doc_file \<Rightarrow> exc + str" where
  "read_text h f =
     (case read_bytes f of
        Inl e \<Rightarrow> Inl (OSError e)
      | Inr bs \<Rightarrow>
          (case utf8_decode h bs of
             Inl x \<Rightarrow> Inl x
           | Inr s \<Rightarrow> Inr (universal_newlines s)))"

text \<open>
  The sort of the source, \<open>snippets.sort(key=lambda x: x["score"], reverse=True)\<close>:
  Python's sort is stable, also with \<open>reverse=True\<close>, so it is the stable sort by the
  negated score.
\<close>

definition sort_by_score :: "snippet list \<Rightarrow> snippet list" where
  "sort_by_score xs = sort_key (\<lambda>x. - score x) xs"

text \<open>
  The cut of a long fragment (lines 83 and 84): a text of more than 600 code points is
  cut to its first 600, and three dots are put behind them.
\<close>

definition shorten :: "str \<Rightarrow> str" where
  "shorten para_stripped =
     (if length para_stripped > 600 then take 600 para_stripped @ lit ''...''
      else para_stripped)"

text \<open>
  The loop over the paragraphs of \<open>_search_in_file\<close>: a paragraph is stripped; an empty
  one and one that scores nothing are passed over; the score is taken from the whole
  stripped paragraph, and the text is cut after that.
\<close>

fun scan_paragraphs :: "pyrt \<Rightarrow> path \<Rightarrow> str \<Rightarrow> str list \<Rightarrow> snippet list" where
  "scan_paragraphs U p query [] = []"
| "scan_paragraphs U p query (para # rest) =
     (let para_stripped = strip (is_space U) para in
      if para_stripped = [] then scan_paragraphs U p query rest
      else
        let sc = simple_score U para_stripped query in
        if sc \<le> 0 then scan_paragraphs U p query rest
        else
          \<lparr>file_str = str_path p, score = sc, snippet = shorten para_stripped\<rparr>
          # scan_paragraphs U p query rest)"

text \<open>
  \<open>raw_paragraphs\<close> (line 70): the text split at the blank lines. \<open>_search_in_file\<close>
  reads the file with the handler \<open>ignore\<close>, scans the paragraphs, sorts the snippets by
  score and returns the first \<open>max_snippets\<close> of them. Its \<open>except OSError\<close> turns an
  \<open>OSError\<close> of the read into the empty list; any other exception would pass through.
\<close>

definition raw_paragraphs :: "pyrt \<Rightarrow> str \<Rightarrow> str list" where
  "raw_paragraphs U content = re_split (is_space U) [] content"

definition search_in_file ::
  "pyrt \<Rightarrow> doc_file \<Rightarrow> str \<Rightarrow> int \<Rightarrow> exc + snippet list" where
  "search_in_file U f query max_snippets =
     (case read_text Ignore f of
        Inl x \<Rightarrow> (case x of OSError e \<Rightarrow> Inr [] | _ \<Rightarrow> Inl x)
      | Inr content \<Rightarrow>
          Inr (slice_to max_snippets
                 (sort_by_score
                    (scan_paragraphs U (doc_path f) query (raw_paragraphs U content)))))"

text \<open>
  The list \<open>snippets\<close> of \<open>_search_in_file\<close> as it stands before the sort: the snippets
  in the order of their paragraphs, and none for a file whose read does not give a text.
\<close>

definition file_snippets :: "pyrt \<Rightarrow> doc_file \<Rightarrow> str \<Rightarrow> snippet list" where
  "file_snippets U f query =
     (case read_text Ignore f of
        Inl x \<Rightarrow> []
      | Inr content \<Rightarrow> scan_paragraphs U (doc_path f) query (raw_paragraphs U content))"

section \<open>The document store scanner\<close>

text \<open>
  What is at a path, and what \<open>stat\<close> answers for it. \<open>kind\<close> says what the path leads
  to, nothing (\<open>Missing\<close>), a regular file, a directory or something else. \<open>stat_error\<close>
  is an error with which the operating system refuses the \<open>stat\<close> whatever is there:
  \<open>EACCES\<close> when a directory above the path may not be searched, \<open>ELOOP\<close> for a loop
  of symbolic links. Without such an error \<open>stat\<close> fails with \<open>ENOENT\<close> for a path
  that leads to nothing and answers the kind otherwise.
\<close>

datatype node_kind = Missing | RegularFile | Directory | Special

record node =
  kind :: node_kind
  stat_error :: "errno option"

definition stat :: "node \<Rightarrow> errno + node_kind" where
  "stat n =
     (case stat_error n of
        Some e \<Rightarrow> Inl e
      | None \<Rightarrow> if kind n = Missing then Inl ENOENT else Inr (kind n))"

text \<open>
  \<open>Path.exists\<close>, \<open>Path.is_dir\<close> and \<open>Path.is_file\<close> of pathlib (CPython 3.11) call
  \<open>stat\<close>. They answer \<open>False\<close> for the errors \<open>ENOENT\<close>, \<open>ENOTDIR\<close>, \<open>EBADF\<close> and
  \<open>ELOOP\<close> and raise every other \<open>OSError\<close> again. The two calls that
  \<open>_iter_doc_files\<close> makes for the root get the same answer from \<open>stat\<close>.
\<close>

definition ignore_error :: "errno \<Rightarrow> bool" where
  "ignore_error e = (e = ENOENT \<or> e = ENOTDIR \<or> e = EBADF \<or> e = ELOOP)"

definition path_exists :: "node \<Rightarrow> exc + bool" where
  "path_exists n =
     (case stat n of
        Inl e \<Rightarrow> if ignore_error e then Inr False else Inl (OSError e)
      | Inr k \<Rightarrow> Inr True)"

definition is_dir :: "node \<Rightarrow> exc + bool" where
  "is_dir n =
     (case stat n of
        Inl e \<Rightarrow> if ignore_error e then Inr False else Inl (OSError e)
      | Inr k \<Rightarrow> Inr (k = Directory))"

definition is_file :: "node \<Rightarrow> exc + bool" where
  "is_file n =
     (case stat n of
        Inl e \<Rightarrow> if ignore_error e then Inr False else Inl (OSError e)
      | Inr k \<Rightarrow> Inr (k = RegularFile))"

text \<open>
  What the file system answers to \<open>_iter_doc_files\<close>. \<open>get_docs_dir\<close> is the result of
  \<open>_get_docs_dir()\<close>, the resolved root directory or the exception of \<open>resolve\<close>;
  \<open>root\<close> is what is at that path; \<open>rglob\<close> are the entries that \<open>base.rglob("*")\<close>
  yields, in the order of the walk, and \<open>rglob_error\<close> is an exception with which the
  walk ends after them, if it does. An entry lies below the root, so it is given by its
  components below the root, with what is at its path and what reading it gives.
\<close>

record fs_entry =
  rel_parts :: "str list"
  entry_node :: node
  file_bytes :: "errno + nat list"

record docs_env =
  get_docs_dir :: "exc + path"
  root :: node
  rglob :: "fs_entry list"
  rglob_error :: "exc option"

text \<open>
  \<open>path.suffix\<close> of pathlib: the name of the path from its last dot on, when that dot is
  neither the first nor the last character of the name; the empty string otherwise.
\<close>

definition path_name :: "path \<Rightarrow> str" where
  "path_name p = (if p = [] then [] else last p)"

fun rfind_dot :: "str \<Rightarrow> nat option" where
  "rfind_dot [] = None"
| "rfind_dot (c # cs) =
     (case rfind_dot cs of
        Some i \<Rightarrow> Some (Suc i)
      | None \<Rightarrow> if c = 46 then Some 0 else None)"

definition suffix_of :: "path \<Rightarrow> str" where
  "suffix_of p =
     (let name = path_name p in
      case rfind_dot name of
        None \<Rightarrow> []
      | Some i \<Rightarrow> if 0 < i \<and> i < length name - 1 then drop i name else [])"

definition exts :: "str list" where
  "exts = [lit ''.md'', lit ''.rst'', lit ''.txt'']"

text \<open>
  The generator of \<open>_iter_doc_files\<close> (lines 43 to 47): the entries of the walk are
  taken one after the other; \<open>is_file\<close> is asked first and the suffix only for a regular
  file; an exception of \<open>is_file\<close> or of the walk ends the scan. \<open>_iter_doc_files\<close>
  catches nothing, so an exception of \<open>_get_docs_dir\<close>, of \<open>exists\<close> or of \<open>is_dir\<close>
  ends it as well.
\<close>

fun select_docs :: "pyrt \<Rightarrow> path \<Rightarrow> exc option \<Rightarrow> fs_entry list \<Rightarrow> exc + doc_file list" where
  "select_docs U base walk_error [] = (case walk_error of None \<Rightarrow> Inr [] | Some x \<Rightarrow> Inl x)"
| "select_docs U base walk_error (e # es) =
     (case is_file (entry_node e) of
        Inl x \<Rightarrow> Inl x
      | Inr regular \<Rightarrow>
          (case select_docs U base walk_error es of
             Inl x \<Rightarrow> Inl x
           | Inr fs \<Rightarrow>
               Inr (if regular \<and> str_lower U (suffix_of (base @ rel_parts e)) \<in> set exts
                    then \<lparr>doc_path = base @ rel_parts e, read_bytes = file_bytes e\<rparr> # fs
                    else fs)))"

definition iter_doc_files :: "pyrt \<Rightarrow> docs_env \<Rightarrow> exc + doc_file list" where
  "iter_doc_files U env =
     (case get_docs_dir env of
        Inl x \<Rightarrow> Inl x
      | Inr base \<Rightarrow>
          (case path_exists (root env) of
             Inl x \<Rightarrow> Inl x
           | Inr there \<Rightarrow>
               if \<not> there then Inr []
               else
                 (case is_dir (root env) of
                    Inl x \<Rightarrow> Inl x
                  | Inr dir \<Rightarrow>
                      if \<not> dir then Inr []
                      else select_docs U base (rglob_error env) (rglob env))))"

section \<open>The corpus search aggregator\<close>

text \<open>
  \<open>_search_docs_internal\<close>. \<open>all_snippets\<close> is the loop over the files: the results
  of the per-file search with the cap of 3 are put one behind the other in the order of
  the scan. The list is sorted by score and its first \<open>max_results\<close> elements are
  returned. An exception of the scan or of a per-file search ends the search.
\<close>

fun all_snippets :: "pyrt \<Rightarrow> str \<Rightarrow> doc_file list \<Rightarrow> exc + snippet list" where
  "all_snippets U query [] = Inr []"
| "all_snippets U query (f # fs) =
     (case search_in_file U f query 3 of
        Inl x \<Rightarrow> Inl x
      | Inr snippets \<Rightarrow>
          (case all_snippets U query fs of
             Inl x \<Rightarrow> Inl x
           | Inr rest \<Rightarrow> Inr (snippets @ rest)))"

definition search_docs_internal ::
  "pyrt \<Rightarrow> docs_env \<Rightarrow> str \<Rightarrow> int \<Rightarrow> exc + snippet list" where
  "search_docs_internal U env query max_results =
     (case iter_doc_files U env of
        Inl x \<Rightarrow> Inl x
      | Inr fs \<Rightarrow>
          (case all_snippets U query fs of
             Inl x \<Rightarrow> Inl x
           | Inr found \<Rightarrow> Inr (slice_to max_results (sort_by_score found))))"

section \<open>The result presenter\<close>

text \<open>
  \<open>ToolResult\<close> of \<open>tools/utils.py\<close>: the text blocks for the reader, the structured
  content and the metadata, the last two optional. The structured content is a
  dictionary with fixed keys in every tool, a record here: one for \<open>list_docs\<close> and one
  for \<open>answer_from_docs\<close>.
\<close>

record text_content =
  tc_type :: str
  tc_text :: str

record 'a tool_result =
  content :: "text_content list"
  structured_content :: "'a option"
  meta :: "(str \<times> str) list option"

record list_payload =
  docs_dir :: str
  files :: "str list"

record answer_payload =
  answer :: "str option"
  used_snippets :: "snippet list"
  query :: str

text \<open>
  A tool turns every exception of its body (\<open>except Exception\<close>) into an \<open>McpError\<close>
  with the code -32603; the message of the error is not modelled. The calls on the
  request context (\<open>ctx.info\<close>, \<open>ctx.report_progress\<close>, \<open>ctx.error\<close>) and the tracing
  span belong to the transport and are left out.
\<close>

datatype error = McpError int

text \<open>
  The literals of the messages, as their code points (the source writes them in
  Russian).
\<close>

definition msg_docs_missing :: str where
  "msg_docs_missing =
     [1050, 1072, 1090, 1072, 1083, 1086, 1075, 32, 1076, 1086, 1082, 1091, 1084,
      1077, 1085, 1090, 1072, 1094, 1080, 1080, 32, 1085, 1077, 32, 1085, 1072,
      1081, 1076, 1077, 1085, 32, 1080, 1083, 1080, 32, 1087, 1091, 1089, 1090, 58,
      32]"

definition msg_docs_create :: str where
  "msg_docs_create =
     [10, 1057, 1086, 1079, 1076, 1072, 1081, 1090, 1077, 32, 1087, 1072, 1087,
      1082, 1091, 32, 100, 111, 99, 115, 47, 32, 1080, 32, 1076, 1086, 1073, 1072,
      1074, 1100, 1090, 1077, 32, 1090, 1091, 1076, 1072, 32, 46, 109, 100, 32, 47,
      32, 46, 114, 115, 116, 32, 47, 32, 46, 116, 120, 116, 32, 1092, 1072, 1081,
      1083, 1099, 46]"

definition msg_docs_found :: str where
  "msg_docs_found =
     [1053, 1072, 1081, 1076, 1077, 1085, 1099, 32, 1092, 1072, 1081, 1083, 1099,
      32, 1076, 1086, 1082, 1091, 1084, 1077, 1085, 1090, 1072, 1094, 1080, 1080, 58]"

definition msg_nothing_found :: str where
  "msg_nothing_found =
     [1042, 32, 1076, 1086, 1082, 1091, 1084, 1077, 1085, 1090, 1072, 1094, 1080,
      1080, 32, 1085, 1077, 32, 1085, 1072, 1096, 1083, 1086, 1089, 1100, 32, 1085,
      1080, 1095, 1077, 1075, 1086, 32, 1087, 1086, 32, 1079, 1072, 1087, 1088,
      1086, 1089, 1091, 32]"

definition msg_cannot_answer :: str where
  "msg_cannot_answer =
     [46, 32, 77, 67, 80, 45, 1089, 1077, 1088, 1074, 1077, 1088, 32, 1085, 1077,
      32, 1084, 1086, 1078, 1077, 1090, 32, 1086, 1090, 1074, 1077, 1090, 1080,
      1090, 1100, 32, 1085, 1072, 32, 1086, 1089, 1085, 1086, 1074, 1077, 32, 1076,
      1086, 1082, 1091, 1084, 1077, 1085, 1090, 1086, 1074, 46]"

definition msg_fragments_below :: str where
  "msg_fragments_below =
     [1053, 1080, 1078, 1077, 32, 1087, 1088, 1080, 1074, 1077, 1076, 1077, 1085,
      1099, 32, 1092, 1088, 1072, 1075, 1084, 1077, 1085, 1090, 1099, 32, 1076,
      1086, 1082, 1091, 1084, 1077, 1085, 1090, 1072, 1094, 1080, 1080, 44, 32,
      1082, 1086, 1090, 1086, 1088, 1099, 1077, 32, 1084, 1086, 1078, 1085, 1086,
      32, 1080, 1089, 1087, 1086, 1083, 1100, 1079, 1086, 1074, 1072, 1090, 1100,
      32, 1076, 1083, 1103, 32, 1086, 1090, 1074, 1077, 1090, 1072, 32, 1085, 1072,
      32, 1074, 1086, 1087, 1088, 1086, 1089, 46]"

definition msg_question :: str where
  "msg_question =
     [1042, 1086, 1087, 1088, 1086, 1089, 58, 32]"

definition msg_fragment :: str where
  "msg_fragment =
     [35, 35, 35, 32, 1060, 1088, 1072, 1075, 1084, 1077, 1085, 1090, 32]"

text \<open>\<open>str(n)\<close> for a Python integer: its decimal digits, after a minus sign when negative.\<close>

function str_nat :: "nat \<Rightarrow> str" where
  "str_nat n = (if n < 10 then [48 + n] else str_nat (n div 10) @ [48 + n mod 10])"
  by pat_completeness auto
termination
  by (relation "measure id") auto

declare str_nat.simps [simp del]

definition str_int :: "int \<Rightarrow> str" where
  "str_int i = (if i < 0 then 45 # str_nat (nat (- i)) else str_nat (nat i))"

text \<open>
  \<open>p.relative_to(base)\<close>: the components of \<open>p\<close> below \<open>base\<close>; \<open>None\<close> stands for the
  \<open>ValueError\<close> that pathlib raises when \<open>p\<close> does not lie below \<open>base\<close>.
\<close>

definition relative_to :: "path \<Rightarrow> path \<Rightarrow> str list option" where
  "relative_to p base = (if prefix base p then Some (drop (length base) p) else None)"

definition list_docs :: "pyrt \<Rightarrow> docs_env \<Rightarrow> error + list_payload tool_result" where
  "list_docs U env =
     (case get_docs_dir env of
        Inl x \<Rightarrow> Inl (McpError (- 32603))
      | Inr base \<Rightarrow>
          (case iter_doc_files U env of
             Inl x \<Rightarrow> Inl (McpError (- 32603))
           | Inr fs \<Rightarrow>
               let result = (\<lambda>txt.
                     \<lparr>content = [\<lparr>tc_type = lit ''text'', tc_text = txt\<rparr>],
                      structured_content =
                        Some \<lparr>docs_dir = str_path base,
                              files = map (\<lambda>f. str_path (doc_path f)) fs\<rparr>,
                      meta = None\<rparr>)
               in if fs = [] then
                    Inr (result (msg_docs_missing @ str_path base @ msg_docs_create))
                  else
                    (case those (map (\<lambda>f. relative_to (doc_path f) base) fs) of
                       None \<Rightarrow> Inl (McpError (- 32603))
                     | Some rs \<Rightarrow>
                         let rels = map str_rel_path rs;
                             lines = msg_docs_found # map (\<lambda>r. lit ''- '' @ r) rels
                         in Inr (result (join [10] lines)))))"

text \<open>
  One block of the answer text: \<open>### ... {idx} (score={score}, file={file}):\n{snippet}\n\<close>.
\<close>

definition fragment_block :: "nat \<times> snippet \<Rightarrow> str" where
  "fragment_block = (\<lambda>(idx, s).
     msg_fragment @ str_nat idx @ lit '' (score='' @ str_int (score s)
       @ lit '', file='' @ file_str s @ lit ''):'' @ [10] @ snippet s @ [10])"

definition answer_from_docs ::
  "pyrt \<Rightarrow> docs_env \<Rightarrow> str \<Rightarrow> int \<Rightarrow> error + answer_payload tool_result" where
  "answer_from_docs U env q max_context_fragments =
     (case search_docs_internal U env q max_context_fragments of
        Inl x \<Rightarrow> Inl (McpError (- 32603))
      | Inr snippets \<Rightarrow>
          if snippets = [] then
            Inr \<lparr>content =
                   [\<lparr>tc_type = lit ''text'',
                     tc_text = msg_nothing_found @ str_repr U q @ msg_cannot_answer\<rparr>],
                 structured_content = Some \<lparr>answer = None, used_snippets = [], query = q\<rparr>,
                 meta = None\<rparr>
          else
            let lines = [msg_fragments_below, msg_question @ str_repr U q, []]
                        @ map fragment_block (zip [1 ..< Suc (length snippets)] snippets);
                txt = join [10] lines
            in Inr \<lparr>content = [\<lparr>tc_type = lit ''text'', tc_text = txt\<rparr>],
                    structured_content =
                      Some \<lparr>answer = Some txt, used_snippets = snippets, query = q\<rparr>,
                    meta = None\<rparr>)"

section \<open>The tables on ASCII text\<close>

text \<open>
  The interpreter's tables for the code points below 128, to run the functions on ASCII
  text: \<open>A\<close> to \<open>Z\<close> are lowered, white space is the code points 9 to 13, 28 to 31 and
  32, a word character is a letter, a digit or the underscore. \<open>repr\<close> puts the string
  in single quotes, or in double quotes when it holds a single quote and no double
  quote, and escapes the quote, the backslash and the control characters. Code points
  from 128 on are left as they are.
\<close>

definition ascii_lower :: "str \<Rightarrow> str" where
  "ascii_lower s = map (\<lambda>c. if 65 \<le> c \<and> c \<le> 90 then c + 32 else c) s"

definition ascii_space :: "nat \<Rightarrow> bool" where
  "ascii_space c = ((9 \<le> c \<and> c \<le> 13) \<or> (28 \<le> c \<and> c \<le> 32))"

definition ascii_word :: "nat \<Rightarrow> bool" where
  "ascii_word c =
     ((48 \<le> c \<and> c \<le> 57) \<or> (65 \<le> c \<and> c \<le> 90) \<or> c = 95 \<or> (97 \<le> c \<and> c \<le> 122))"

definition hex_digit :: "nat \<Rightarrow> nat" where
  "hex_digit d = (if d < 10 then 48 + d else 87 + d)"

definition ascii_escape :: "nat \<Rightarrow> nat \<Rightarrow> str" where
  "ascii_escape quote c =
     (if c = quote \<or> c = 92 then [92, c]
      else if c = 9 then [92, 116]
      else if c = 10 then [92, 110]
      else if c = 13 then [92, 114]
      else if c < 32 \<or> c = 127 then [92, 120] @ [hex_digit (c div 16), hex_digit (c mod 16)]
      else [c])"

definition ascii_repr :: "str \<Rightarrow> str" where
  "ascii_repr s =
     (let quote = (if 39 \<in> set s \<and> 34 \<notin> set s then 34 else 39)
      in quote # concat (map (ascii_escape quote) s) @ [quote])"

definition ascii_rt :: pyrt where
  "ascii_rt = \<lparr>str_lower = ascii_lower, is_space = ascii_space, is_word = ascii_word,
               str_repr = ascii_repr\<rparr>"

section \<open>Notions for the statements\<close>

text \<open>
  To say what \<open>count_str\<close> counts: \<open>sub\<close> occurs in \<open>t\<close> at the position \<open>i\<close>, and the
  number of all positions at which it occurs, overlapping ones included.
\<close>

definition occurs_at :: "str \<Rightarrow> str \<Rightarrow> nat \<Rightarrow> bool" where
  "occurs_at t sub i = (i + length sub \<le> length t \<and> take (length sub) (drop i t) = sub)"

definition count_overlapping :: "str \<Rightarrow> str \<Rightarrow> nat" where
  "count_overlapping t sub = length (filter (occurs_at t sub) [0 ..< Suc (length t)])"

text \<open>
  The score as the specification words it, to compare with \<open>simple_score\<close>: the sum over
  the set of the words of the query, every word once, the empty word left out.
\<close>

definition score_over_token_set :: "pyrt \<Rightarrow> str \<Rightarrow> str \<Rightarrow> int" where
  "score_over_token_set U txt q =
     (\<Sum>tok \<in> set (findall_words (is_word U) (str_lower U q)) - {[]}.
        int (count_str (str_lower U txt) tok))"

section \<open>A sample corpus\<close>

text \<open>
  A root directory \<open>/docs\<close> to run the functions on: \<open>a.md\<close> with three paragraphs (the
  second does not hold the word, the third holds it once); a directory \<open>sub\<close> with
  \<open>b.TXT\<close> in it, whose bytes hold the byte \<open>FF\<close>, which is no UTF-8; \<open>c.rst\<close>, which
  may not be opened; and \<open>d.py\<close>, which is no document.
\<close>

definition regular :: node where
  "regular = \<lparr>kind = RegularFile, stat_error = None\<rparr>"

definition directory :: node where
  "directory = \<lparr>kind = Directory, stat_error = None\<rparr>"

definition sample_a :: str where
  "sample_a = lit ''error timeout error'' @ [10, 10] @ lit ''nothing here''
              @ [10, 32, 10] @ lit ''An Error''"

definition sample_b :: "nat list" where
  "sample_b = lit ''the err'' @ [255] @ lit ''or''"

definition sample_env :: docs_env where
  "sample_env =
     \<lparr>get_docs_dir = Inr [lit ''docs''], root = directory,
      rglob =
        [\<lparr>rel_parts = [lit ''a.md''], entry_node = regular, file_bytes = Inr sample_a\<rparr>,
         \<lparr>rel_parts = [lit ''sub''], entry_node = directory, file_bytes = Inl EISDIR\<rparr>,
         \<lparr>rel_parts = [lit ''sub'', lit ''b.TXT''], entry_node = regular,
          file_bytes = Inr sample_b\<rparr>,
         \<lparr>rel_parts = [lit ''c.rst''], entry_node = regular, file_bytes = Inl EACCES\<rparr>,
         \<lparr>rel_parts = [lit ''d.py''], entry_node = regular, file_bytes = Inr (lit ''error'')\<rparr>],
      rglob_error = None\<rparr>"

text \<open>The three documents of the sample corpus, as the scanner finds them.\<close>

definition sample_doc :: doc_file where
  "sample_doc = \<lparr>doc_path = [lit ''docs'', lit ''a.md''], read_bytes = Inr sample_a\<rparr>"

definition sample_doc_b :: doc_file where
  "sample_doc_b =
     \<lparr>doc_path = [lit ''docs'', lit ''sub'', lit ''b.TXT''], read_bytes = Inr sample_b\<rparr>"

definition unreadable_doc :: doc_file where
  "unreadable_doc = \<lparr>doc_path = [lit ''docs'', lit ''c.rst''], read_bytes = Inl EACCES\<rparr>"

text \<open>
  Roots that hold no documents: a path that leads to nothing, and a path that leads to
  nothing below a directory that may not be searched, so that \<open>stat\<close> is refused with
  \<open>EACCES\<close>.
\<close>

definition missing_root_env :: docs_env where
  "missing_root_env =
     \<lparr>get_docs_dir = Inr [lit ''docs''], root = \<lparr>kind = Missing, stat_error = None\<rparr>,
      rglob = [], rglob_error = None\<rparr>"

definition denied_root_env :: docs_env where
  "denied_root_env =
     \<lparr>get_docs_dir = Inr [lit ''home'', lit ''other'', lit ''docs''],
      root = \<lparr>kind = Missing, stat_error = Some EACCES\<rparr>,
      rglob = [], rglob_error = None\<rparr>"

text \<open>
  A root directory \<open>/docs\<close> with the document \<open>a.md\<close> and a directory \<open>locked\<close> that may
  be listed but not searched: its file \<open>b.md\<close> is found by the walk, and neither \<open>stat\<close>
  nor reading is allowed for it.
\<close>

definition locked_doc :: doc_file where
  "locked_doc =
     \<lparr>doc_path = [lit ''docs'', lit ''locked'', lit ''b.md''], read_bytes = Inl EACCES\<rparr>"

definition locked_env :: docs_env where
  "locked_env =
     \<lparr>get_docs_dir = Inr [lit ''docs''], root = directory,
      rglob =
        [\<lparr>rel_parts = [lit ''a.md''], entry_node = regular, file_bytes = Inr sample_a\<rparr>,
         \<lparr>rel_parts = [lit ''locked''], entry_node = directory, file_bytes = Inl EISDIR\<rparr>,
         \<lparr>rel_parts = [lit ''locked'', lit ''b.md''],
          entry_node = \<lparr>kind = RegularFile, stat_error = Some EACCES\<rparr>,
          file_bytes = Inl EACCES\<rparr>],
      rglob_error = None\<rparr>"

text \<open>
  A document \<open>t.md\<close> with four paragraphs that hold the word: the second holds it twice,
  the others once.
\<close>

definition ties_doc :: doc_file where
  "ties_doc =
     \<lparr>doc_path = [lit ''docs'', lit ''t.md''],
      read_bytes = Inr (lit ''error one'' @ [10, 10] @ lit ''error error'' @ [10, 10]
                        @ lit ''error two'' @ [10, 10] @ lit ''error three'')\<rparr>"

text \<open>
  A document \<open>e.md\<close> with one paragraph, for a query that says a word twice; and a
  document \<open>l.md\<close> whose one paragraph is 600 times the letter \<open>x\<close> and then the word, 606
  code points in all, so that the word lies behind the cut.
\<close>

definition dup_doc :: doc_file where
  "dup_doc = \<lparr>doc_path = [lit ''docs'', lit ''e.md''], read_bytes = Inr (lit ''an error'')\<rparr>"

definition long_para :: str where
  "long_para = replicate 600 120 @ lit '' error''"

definition long_doc :: doc_file where
  "long_doc = \<lparr>doc_path = [lit ''docs'', lit ''l.md''], read_bytes = Inr long_para\<rparr>"

section \<open>Facts about the library functions\<close>

lemma slice_to_take: "\<exists>k. slice_to n xs = take k xs"
  by (auto simp: slice_to_def)

lemma set_slice_to: "set (slice_to n xs) \<subseteq> set xs"
  by (auto simp: slice_to_def dest: in_set_takeD)

lemma length_slice_to: "0 \<le> n \<Longrightarrow> length (slice_to n xs) \<le> nat n"
  by (simp add: slice_to_def)

lemma slice_to_Nil [simp]: "slice_to n [] = []"
  by (simp add: slice_to_def)

lemma sorted_wrt_slice_to: "sorted_wrt P xs \<Longrightarrow> sorted_wrt P (slice_to n xs)"
  by (simp add: slice_to_def sorted_wrt_take)

lemma prefix_filter_slice_to: "prefix (filter P (slice_to n xs)) (filter P xs)"
  by (metis slice_to_take take_is_prefix filter_mono_prefix)

lemma set_sort_by_score [simp]: "set (sort_by_score xs) = set xs"
  by (simp add: sort_by_score_def)

lemma sort_by_score_Nil [simp]: "sort_by_score [] = []"
  by (simp add: sort_by_score_def)

lemma sorted_sort_by_score: "sorted_wrt (\<lambda>a b. score b \<le> score a) (sort_by_score xs)"
proof -
  have "sorted (map (\<lambda>x. - score x) (sort_by_score xs))"
    by (simp add: sort_by_score_def)
  then show ?thesis
    by (simp add: sorted_map)
qed

lemma stable_sort_by_score:
  "filter (\<lambda>x. score x = k) (sort_by_score xs) = filter (\<lambda>x. score x = k) xs"
  using sort_key_stable [of "\<lambda>x. - score x" "- k" xs]
  by (simp add: sort_by_score_def)

lemma subseq_concat_map:
  "(\<And>x. x \<in> set xs \<Longrightarrow> subseq (g x) (h x)) \<Longrightarrow>
     subseq (concat (map g xs)) (concat (map h xs))"
  by (induction xs) (auto intro: list_emb_append_mono)

section \<open>Facts about the scorer and the aggregator\<close>

lemma utf8_decode_ignore_aux: "h = Ignore \<Longrightarrow> \<exists>s. utf8_decode h bs = Inr s"
proof (induction h bs rule: utf8_decode.induct)
  case (1 h)
  show ?case by simp
next
  case (2 h b0 bs)
  show ?case
  proof (cases "utf8_step b0 bs")
    case (Decoded c r)
    with "2.IH"(1) "2.prems" obtain s where "utf8_decode h r = Inr s"
      by blast
    with Decoded show ?thesis by simp
  next
    case (Invalid r)
    with "2.IH"(2) "2.prems" obtain s where "utf8_decode h r = Inr s"
      by blast
    with Invalid "2.prems" show ?thesis by simp
  qed
qed

lemma utf8_decode_ignore: "\<exists>s. utf8_decode Ignore bs = Inr s"
  by (rule utf8_decode_ignore_aux) simp

lemma utf8_decode_ascii: "\<forall>b \<in> set bs. b < 128 \<Longrightarrow> utf8_decode h bs = Inr bs"
  by (induction bs) (auto simp: utf8_step.simps)

lemma universal_newlines_id: "13 \<notin> set s \<Longrightarrow> universal_newlines s = s"
  by (induction s rule: universal_newlines.induct) auto

lemma read_text_ascii:
  assumes "read_bytes f = Inr bs" and "\<forall>b \<in> set bs. b < 128" and "13 \<notin> set bs"
  shows "read_text h f = Inr bs"
  using assms by (simp add: read_text_def utf8_decode_ascii universal_newlines_id)

lemma read_text_ignore:
  "(\<exists>e. read_bytes f = Inl e \<and> read_text Ignore f = Inl (OSError e)) \<or>
   (\<exists>bs s. read_bytes f = Inr bs \<and> utf8_decode Ignore bs = Inr s \<and>
            read_text Ignore f = Inr (universal_newlines s))"
proof (cases "read_bytes f")
  case (Inl e)
  then show ?thesis by (simp add: read_text_def)
next
  case (Inr bs)
  obtain s where "utf8_decode Ignore bs = Inr s"
    using utf8_decode_ignore by blast
  with Inr show ?thesis by (simp add: read_text_def)
qed

lemma search_in_file_eq:
  "search_in_file U f q n = Inr (slice_to n (sort_by_score (file_snippets U f q)))"
  using read_text_ignore [of f]
  by (auto simp: search_in_file_def file_snippets_def)

lemma search_in_file_set:
  "search_in_file U f q n = Inr res \<Longrightarrow> set res \<subseteq> set (file_snippets U f q)"
  using set_slice_to [of n "sort_by_score (file_snippets U f q)"]
  by (simp add: search_in_file_eq)

lemma all_snippets_eq:
  "all_snippets U q fs
     = Inr (concat (map (\<lambda>g. slice_to 3 (sort_by_score (file_snippets U g q))) fs))"
  by (induction fs) (simp_all add: search_in_file_eq)

lemma search_docs_internal_eq:
  "iter_doc_files U env = Inr fs \<Longrightarrow>
     search_docs_internal U env q m
       = Inr (slice_to m (sort_by_score
                (concat (map (\<lambda>g. slice_to 3 (sort_by_score (file_snippets U g q))) fs))))"
  by (simp add: search_docs_internal_def all_snippets_eq)

lemma search_docs_internal_Inr:
  assumes "search_docs_internal U env q m = Inr out"
  shows "\<exists>fs. iter_doc_files U env = Inr fs \<and>
              out = slice_to m (sort_by_score
                      (concat (map (\<lambda>g. slice_to 3 (sort_by_score (file_snippets U g q))) fs)))"
proof (cases "iter_doc_files U env")
  case (Inl x)
  with assms show ?thesis by (simp add: search_docs_internal_def)
next
  case (Inr fs)
  with assms search_docs_internal_eq [OF Inr, of q m] show ?thesis by simp
qed

lemma scan_paragraphs_member:
  "s \<in> set (scan_paragraphs U p q paras) \<Longrightarrow>
     \<exists>para \<in> set paras.
        strip (is_space U) para \<noteq> [] \<and>
        0 < simple_score U (strip (is_space U) para) q \<and>
        s = \<lparr>file_str = str_path p,
             score = simple_score U (strip (is_space U) para) q,
             snippet = shorten (strip (is_space U) para)\<rparr>"
  by (induction paras) (auto simp: Let_def split: if_splits)

lemma file_snippets_member:
  assumes "s \<in> set (file_snippets U f q)"
  shows "\<exists>content. read_text Ignore f = Inr content \<and>
           (\<exists>para \<in> set (raw_paragraphs U content).
              strip (is_space U) para \<noteq> [] \<and>
              0 < simple_score U (strip (is_space U) para) q \<and>
              s = \<lparr>file_str = str_path (doc_path f),
                   score = simple_score U (strip (is_space U) para) q,
                   snippet = shorten (strip (is_space U) para)\<rparr>)"
proof (cases "read_text Ignore f")
  case (Inl x)
  with assms show ?thesis by (simp add: file_snippets_def)
next
  case (Inr content)
  with assms have "s \<in> set (scan_paragraphs U (doc_path f) q (raw_paragraphs U content))"
    by (simp add: file_snippets_def)
  from scan_paragraphs_member [OF this] Inr show ?thesis by simp
qed

lemma search_docs_internal_member:
  assumes "search_docs_internal U env q m = Inr out" and "s \<in> set out"
  shows "\<exists>fs. iter_doc_files U env = Inr fs \<and> (\<exists>f \<in> set fs. s \<in> set (file_snippets U f q))"
proof -
  from search_docs_internal_Inr [OF assms(1)] obtain fs where fs: "iter_doc_files U env = Inr fs"
    and out: "out = slice_to m (sort_by_score
                (concat (map (\<lambda>g. slice_to 3 (sort_by_score (file_snippets U g q))) fs)))"
    by blast
  from assms(2) out
  have "s \<in> set (concat (map (\<lambda>g. slice_to 3 (sort_by_score (file_snippets U g q))) fs))"
    using set_slice_to by fastforce
  then obtain f where "f \<in> set fs" and "s \<in> set (slice_to 3 (sort_by_score (file_snippets U f q)))"
    by auto
  then have "f \<in> set fs \<and> s \<in> set (file_snippets U f q)"
    using set_slice_to by fastforce
  with fs show ?thesis by blast
qed

lemma length_shorten: "length (shorten s) \<le> 603"
  by (simp add: shorten_def lit_def)

lemma re_split_no_line_feed: "10 \<notin> set s \<Longrightarrow> re_split sp piece s = [piece @ s]"
  by (induction s arbitrary: piece) auto

lemma strip_id:
  assumes "s \<noteq> []" and "\<not> sp (hd s)" and "\<not> sp (last s)"
  shows "strip sp s = s"
proof -
  have front: "dropWhile sp s = s"
    using assms by (cases s) auto
  obtain x xs where rv: "rev s = x # xs"
    using assms(1) by (cases "rev s") auto
  then have "s = rev xs @ [x]"
    by (metis rev.simps(2) rev_rev_ident)
  then have "last s = x"
    by simp
  with assms(3) rv have "dropWhile sp (rev s) = rev s"
    by simp
  with front show ?thesis
    by (simp add: strip_def)
qed

lemma count_str_skip:
  "sub \<noteq> [] \<Longrightarrow> c \<noteq> hd sub \<Longrightarrow> length sub \<le> Suc (length t) \<Longrightarrow>
     count_str (c # t) sub = count_str t sub"
  by (subst count_str.simps) (cases sub; auto)

lemma findall_words_nonempty: "tok \<in> set (findall_words w s) \<Longrightarrow> tok \<noteq> []"
  by (induction w s rule: findall_words.induct) (auto split: if_splits)

lemma simple_score_sum:
  "simple_score U txt q
     = (\<Sum>tok\<leftarrow>findall_words (is_word U) (str_lower U q). int (count_str (str_lower U txt) tok))"
proof -
  have "filter (\<lambda>tok. tok \<noteq> []) (findall_words (is_word U) (str_lower U q))
          = findall_words (is_word U) (str_lower U q)"
    by (rule filter_True) (simp add: findall_words_nonempty)
  then show ?thesis
    by (simp add: simple_score_def)
qed

lemma occurs_at_drop:
  "sub \<noteq> [] \<Longrightarrow> occurs_at (drop n t) sub i \<Longrightarrow> occurs_at t sub (i + n)"
  by (cases "n \<le> length t") (auto simp: occurs_at_def add.commute)

lemma occurs_at_drop_iff:
  "n \<le> j \<Longrightarrow> occurs_at t sub j \<Longrightarrow> occurs_at (drop n t) sub (j - n)"
  by (auto simp: occurs_at_def)

lemma count_str_positions:
  "sub \<noteq> [] \<Longrightarrow>
     \<exists>ps. length ps = count_str t sub \<and>
          (\<forall>i \<in> set ps. occurs_at t sub i) \<and>
          sorted_wrt (\<lambda>i j. i + length sub \<le> j) ps \<and>
          (\<forall>j. occurs_at t sub j \<longrightarrow> (\<exists>i \<in> set ps. i \<le> j \<and> j < i + length sub))"
proof (induction t sub rule: count_str.induct)
  case (1 t sub)
  let ?n = "length sub"
  from "1.prems" have n: "0 < ?n" by simp
  show ?case
  proof (cases "length t < ?n")
    case True
    then have "count_str t sub = 0"
      using "1.prems" by (simp add: count_str.simps)
    moreover from True have "\<not> occurs_at t sub j" for j
      by (simp add: occurs_at_def)
    ultimately show ?thesis by simp
  next
    case False
    show ?thesis
    proof (cases "take ?n t = sub")
      case True
      from "1.IH"(1) [OF "1.prems" False True "1.prems"]
      obtain ps where ps: "length ps = count_str (drop ?n t) sub"
        "\<forall>i \<in> set ps. occurs_at (drop ?n t) sub i"
        "sorted_wrt (\<lambda>i j. i + ?n \<le> j) ps"
        "\<forall>j. occurs_at (drop ?n t) sub j \<longrightarrow> (\<exists>i \<in> set ps. i \<le> j \<and> j < i + ?n)"
        by blast
      let ?qs = "0 # map (\<lambda>i. i + ?n) ps"
      have len: "length ?qs = count_str t sub"
        using ps(1) "1.prems" False True by (subst count_str.simps) simp
      have occ0: "occurs_at t sub 0"
        using False True by (simp add: occurs_at_def)
      have occ: "\<forall>i \<in> set ?qs. occurs_at t sub i"
        using occ0 ps(2) "1.prems" by (auto dest: occurs_at_drop)
      have srt: "sorted_wrt (\<lambda>i j. i + ?n \<le> j) ?qs"
        using ps(3) by (simp add: sorted_wrt_map)
      have cov: "\<exists>i \<in> set ?qs. i \<le> j \<and> j < i + ?n" if j: "occurs_at t sub j" for j
      proof (cases "j < ?n")
        case True
        then show ?thesis by simp
      next
        case ge: False
        then have "occurs_at (drop ?n t) sub (j - ?n)"
          using j by (simp add: occurs_at_drop_iff)
        with ps(4) obtain i where "i \<in> set ps" "i \<le> j - ?n" "j - ?n < i + ?n"
          by blast
        with ge have "i + ?n \<in> set ?qs \<and> i + ?n \<le> j \<and> j < i + ?n + ?n"
          by auto
        then show ?thesis by blast
      qed
      from len occ srt cov show ?thesis by blast
    next
      case nomatch: False
      from False n have ne: "t \<noteq> []" by auto
      from "1.IH"(2) [OF "1.prems" False nomatch "1.prems"]
      obtain ps where ps: "length ps = count_str (tl t) sub"
        "\<forall>i \<in> set ps. occurs_at (tl t) sub i"
        "sorted_wrt (\<lambda>i j. i + ?n \<le> j) ps"
        "\<forall>j. occurs_at (tl t) sub j \<longrightarrow> (\<exists>i \<in> set ps. i \<le> j \<and> j < i + ?n)"
        by blast
      let ?qs = "map Suc ps"
      have tl: "tl t = drop 1 t" by (simp add: drop_Suc)
      have len: "length ?qs = count_str t sub"
        using ps(1) "1.prems" False nomatch by (subst count_str.simps) simp
      have occ: "\<forall>i \<in> set ?qs. occurs_at t sub i"
        using ps(2) occurs_at_drop [OF "1.prems", of 1 t] by (auto simp: tl)
      have srt: "sorted_wrt (\<lambda>i j. i + ?n \<le> j) ?qs"
        using ps(3) by (simp add: sorted_wrt_map)
      have cov: "\<exists>i \<in> set ?qs. i \<le> j \<and> j < i + ?n" if j: "occurs_at t sub j" for j
      proof -
        have "j \<noteq> 0"
        proof
          assume "j = 0"
          with j nomatch show False by (simp add: occurs_at_def)
        qed
        then have "occurs_at (tl t) sub (j - 1)"
          using j occurs_at_drop_iff [of 1 j t sub] by (simp add: tl)
        with ps(4) obtain i where "i \<in> set ps" "i \<le> j - 1" "j - 1 < i + ?n"
          by blast
        with \<open>j \<noteq> 0\<close> have "Suc i \<in> set ?qs \<and> Suc i \<le> j \<and> j < Suc i + ?n"
          by auto
        then show ?thesis by blast
      qed
      from len occ srt cov show ?thesis by blast
    qed
  qed
qed

lemma relative_to_below: "relative_to (base @ r) base = Some r"
  by (simp add: relative_to_def)

lemma those_map_Some: "those (map (\<lambda>x. Some (g x)) xs) = Some (map g xs)"
  by (induction xs) auto

lemma select_docs_below:
  "select_docs U base walk_error es = Inr fs \<Longrightarrow>
     \<exists>rels. map doc_path fs = map (\<lambda>r. base @ r) rels"
proof (induction es arbitrary: fs)
  case Nil
  then have "fs = []"
    by (simp split: option.splits)
  then have "map doc_path fs = map (\<lambda>r. base @ r) []"
    by simp
  then show ?case by blast
next
  case (Cons e es)
  from Cons.prems obtain regular fs' where
    rest: "select_docs U base walk_error es = Inr fs'" and
    fs: "fs = (if regular \<and> str_lower U (suffix_of (base @ rel_parts e)) \<in> set exts
               then \<lparr>doc_path = base @ rel_parts e, read_bytes = file_bytes e\<rparr> # fs'
               else fs')"
    by (auto split: sum.splits)
  from Cons.IH [OF rest] obtain rels where rels: "map doc_path fs' = map (\<lambda>r. base @ r) rels"
    by blast
  show ?case
  proof (cases "regular \<and> str_lower U (suffix_of (base @ rel_parts e)) \<in> set exts")
    case True
    with fs rels have "map doc_path fs = map (\<lambda>r. base @ r) (rel_parts e # rels)"
      by simp
    then show ?thesis by blast
  next
    case False
    with fs rels show ?thesis by auto
  qed
qed

lemma iter_doc_files_below:
  assumes "get_docs_dir env = Inr base" and "iter_doc_files U env = Inr fs"
  shows "\<exists>rels. map doc_path fs = map (\<lambda>r. base @ r) rels"
proof (cases "fs = []")
  case True
  then have "map doc_path fs = map (\<lambda>r. base @ r) []"
    by simp
  then show ?thesis by blast
next
  case False
  with assms have "select_docs U base (rglob_error env) (rglob env) = Inr fs"
    by (auto simp: iter_doc_files_def split: sum.splits if_splits)
  then show ?thesis by (rule select_docs_below)
qed

lemma join_first_nonempty: "x \<noteq> [] \<Longrightarrow> join sep (x # xs) \<noteq> []"
  by (cases xs) auto

section \<open>The functions on the sample corpus\<close>

lemma sample_paragraphs:
  "raw_paragraphs ascii_rt sample_a
     = [lit ''error timeout error'', lit ''nothing here'', lit ''An Error'']"
  by code_simp

lemma sample_read_text: "read_text Ignore sample_doc = Inr sample_a"
  by code_simp

lemma sample_file_snippets:
  "file_snippets ascii_rt sample_doc (lit ''error'')
     = [\<lparr>file_str = lit ''/docs/a.md'', score = 2, snippet = lit ''error timeout error''\<rparr>,
        \<lparr>file_str = lit ''/docs/a.md'', score = 1, snippet = lit ''An Error''\<rparr>]"
  by code_simp

lemma sample_search_in_file:
  "search_in_file ascii_rt sample_doc (lit ''error'') 3
     = Inr [\<lparr>file_str = lit ''/docs/a.md'', score = 2, snippet = lit ''error timeout error''\<rparr>,
            \<lparr>file_str = lit ''/docs/a.md'', score = 1, snippet = lit ''An Error''\<rparr>]"
  by code_simp

lemma sample_b_decode:
  "utf8_decode Strict sample_b = Inl UnicodeDecodeError \<and>
   utf8_decode Ignore sample_b = Inr (lit ''the error'')"
  by code_simp

lemma sample_b_search_in_file:
  "search_in_file ascii_rt sample_doc_b (lit ''error'') 3
     = Inr [\<lparr>file_str = lit ''/docs/sub/b.TXT'', score = 1, snippet = lit ''the error''\<rparr>]"
  by code_simp

lemma unreadable_search_in_file:
  "search_in_file ascii_rt unreadable_doc (lit ''error'') 3 = Inr []"
  by code_simp

lemma sample_iter_doc_files:
  "iter_doc_files ascii_rt sample_env = Inr [sample_doc, sample_doc_b, unreadable_doc]"
  by code_simp

lemma sample_search_docs_internal:
  "search_docs_internal ascii_rt sample_env (lit ''error'') 5
     = Inr [\<lparr>file_str = lit ''/docs/a.md'', score = 2, snippet = lit ''error timeout error''\<rparr>,
            \<lparr>file_str = lit ''/docs/a.md'', score = 1, snippet = lit ''An Error''\<rparr>,
            \<lparr>file_str = lit ''/docs/sub/b.TXT'', score = 1, snippet = lit ''the error''\<rparr>]"
  by code_simp

lemma sample_search_docs_internal_2:
  "search_docs_internal ascii_rt sample_env (lit ''error'') 2
     = Inr [\<lparr>file_str = lit ''/docs/a.md'', score = 2, snippet = lit ''error timeout error''\<rparr>,
            \<lparr>file_str = lit ''/docs/a.md'', score = 1, snippet = lit ''An Error''\<rparr>]"
  by code_simp

lemma sample_nothing_found:
  "search_docs_internal ascii_rt sample_env (lit ''xyz123'') 5 = Inr []"
  by code_simp

lemma missing_root_scan: "iter_doc_files ascii_rt missing_root_env = Inr []"
  by code_simp

lemma denied_root_scan:
  "iter_doc_files ascii_rt denied_root_env = Inl (OSError EACCES) \<and>
   search_docs_internal ascii_rt denied_root_env (lit ''error'') 5 = Inl (OSError EACCES)"
  by code_simp

lemma locked_scan:
  "iter_doc_files ascii_rt locked_env = Inl (OSError EACCES) \<and>
   search_docs_internal ascii_rt locked_env (lit ''error'') 5 = Inl (OSError EACCES)"
  by code_simp

lemma locked_search_in_file:
  "search_in_file ascii_rt locked_doc (lit ''error'') 3 = Inr []"
  by code_simp

lemma ties_file_snippets:
  "file_snippets ascii_rt ties_doc (lit ''error'')
     = [\<lparr>file_str = lit ''/docs/t.md'', score = 1, snippet = lit ''error one''\<rparr>,
        \<lparr>file_str = lit ''/docs/t.md'', score = 2, snippet = lit ''error error''\<rparr>,
        \<lparr>file_str = lit ''/docs/t.md'', score = 1, snippet = lit ''error two''\<rparr>,
        \<lparr>file_str = lit ''/docs/t.md'', score = 1, snippet = lit ''error three''\<rparr>]"
  by code_simp

lemma ties_search_in_file:
  "search_in_file ascii_rt ties_doc (lit ''error'') 3
     = Inr [\<lparr>file_str = lit ''/docs/t.md'', score = 2, snippet = lit ''error error''\<rparr>,
            \<lparr>file_str = lit ''/docs/t.md'', score = 1, snippet = lit ''error one''\<rparr>,
            \<lparr>file_str = lit ''/docs/t.md'', score = 1, snippet = lit ''error two''\<rparr>]"
  by code_simp

lemma dup_read_text: "read_text Ignore dup_doc = Inr (lit ''an error'')"
  by code_simp

lemma dup_search_in_file:
  "search_in_file ascii_rt dup_doc (lit ''error error'') 3
     = Inr [\<lparr>file_str = lit ''/docs/e.md'', score = 2, snippet = lit ''an error''\<rparr>]"
  by code_simp

lemma dup_set_score:
  "score_over_token_set ascii_rt (lit ''an error'') (lit ''error error'') = 1"
  by code_simp

lemma count_after_xs: "count_str (replicate k 120 @ lit '' error'') (lit ''error'') = 1"
proof (induction k)
  case 0
  show ?case by code_simp
next
  case (Suc k)
  have "count_str (120 # replicate k 120 @ lit '' error'') (lit ''error'')
          = count_str (replicate k 120 @ lit '' error'') (lit ''error'')"
    by (rule count_str_skip) (simp_all add: lit_def)
  with Suc show ?case by simp
qed

lemma count_in_cut_xs: "count_str (replicate k 120 @ lit ''...'') (lit ''error'') = 0"
proof (induction k)
  case 0
  show ?case by code_simp
next
  case (Suc k)
  show ?case
  proof (cases "length (lit ''error'') \<le> Suc (length (replicate k 120 @ lit ''...''))")
    case True
    have "count_str (120 # replicate k 120 @ lit ''...'') (lit ''error'')
            = count_str (replicate k 120 @ lit ''...'') (lit ''error'')"
      by (rule count_str_skip) (use True in \<open>simp_all add: lit_def\<close>)
    with Suc show ?thesis by simp
  next
    case False
    then show ?thesis
      by (subst count_str.simps) (simp add: lit_def)
  qed
qed

lemma error_tokens: "findall_words ascii_word (ascii_lower (lit ''error'')) = [lit ''error'']"
  by code_simp

lemma long_para_score: "simple_score ascii_rt long_para (lit ''error'') = 1"
proof -
  have "ascii_lower long_para = long_para"
    by (simp add: long_para_def ascii_lower_def lit_def)
  then show ?thesis
    using count_after_xs [of 600]
    by (simp add: simple_score_def ascii_rt_def error_tokens long_para_def) (simp add: lit_def)
qed

lemma long_cut_score:
  "simple_score ascii_rt (replicate 600 120 @ lit ''...'') (lit ''error'') = 0"
proof -
  have "ascii_lower (replicate 600 120 @ lit ''...'') = replicate 600 120 @ lit ''...''"
    by (simp add: ascii_lower_def lit_def)
  then show ?thesis
    using count_in_cut_xs [of 600]
    by (simp add: simple_score_def ascii_rt_def error_tokens)
qed

lemma long_read_text: "read_text Ignore long_doc = Inr long_para"
  by (rule read_text_ascii) (auto simp: long_doc_def long_para_def lit_def)

lemma long_paragraphs: "raw_paragraphs ascii_rt long_para = [long_para]"
  unfolding raw_paragraphs_def
  by (subst re_split_no_line_feed) (simp_all add: long_para_def lit_def)

lemma long_strip: "strip (is_space ascii_rt) long_para = long_para"
  by (rule strip_id) (simp_all add: long_para_def lit_def ascii_rt_def ascii_space_def)

lemma long_shorten: "shorten long_para = replicate 600 120 @ lit ''...''"
  by (simp add: shorten_def long_para_def lit_def)

lemma long_search_in_file:
  "search_in_file ascii_rt long_doc (lit ''error'') 3
     = Inr [\<lparr>file_str = lit ''/docs/l.md'', score = 1,
             snippet = replicate 600 120 @ lit ''...''\<rparr>]"
proof -
  have "str_path [lit ''docs'', lit ''l.md''] = lit ''/docs/l.md''"
    by (simp add: str_path_def lit_def)
  moreover have "long_para \<noteq> []"
    by (simp add: long_para_def)
  moreover have "doc_path long_doc = [lit ''docs'', lit ''l.md'']"
    by (simp add: long_doc_def)
  ultimately show ?thesis
    by (simp add: search_in_file_def long_read_text long_paragraphs long_strip long_para_score
        long_shorten sort_by_score_def slice_to_def)
qed

lemma aaaa_counts:
  "count_str (lit ''aaaa'') (lit ''aa'') = 2 \<and> count_overlapping (lit ''aaaa'') (lit ''aa'') = 3"
  by code_simp

lemma sample_list_docs:
  "list_docs ascii_rt sample_env =
     Inr \<lparr>content =
            [\<lparr>tc_type = lit ''text'',
              tc_text = msg_docs_found @ [10] @ lit ''- a.md'' @ [10] @ lit ''- sub/b.TXT''
                        @ [10] @ lit ''- c.rst''\<rparr>],
          structured_content =
            Some \<lparr>docs_dir = lit ''/docs'',
                  files = [lit ''/docs/a.md'', lit ''/docs/sub/b.TXT'', lit ''/docs/c.rst'']\<rparr>,
          meta = None\<rparr>"
  by code_simp

lemma locked_list_docs: "list_docs ascii_rt locked_env = Inl (McpError (- 32603))"
  by code_simp

section \<open>Properties of the retrieval core\<close>

text \<open>
  C1, as the code has it. Every snippet that the per-file search returns comes from a
  paragraph of the document, and its score is the sum, over the list of the lowercase
  words of the query, of the number of times the word is counted in the lowered text of
  the stripped paragraph, which is the text before the cut. The words are a list: a word
  that the query says twice is counted twice.
\<close>

theorem score_is_sum_over_token_list:
  assumes "search_in_file U f q n = Inr res" and "s \<in> set res"
  shows "\<exists>content. read_text Ignore f = Inr content \<and>
           (\<exists>para \<in> set (raw_paragraphs U content).
              snippet s = shorten (strip (is_space U) para) \<and>
              score s = (\<Sum>tok\<leftarrow>filter (\<lambda>tok. tok \<noteq> [])
                                    (findall_words (is_word U) (str_lower U q)).
                           int (count_str (str_lower U (strip (is_space U) para)) tok)))"
proof -
  from assms have "s \<in> set (file_snippets U f q)"
    using search_in_file_set by blast
  from file_snippets_member [OF this]
  obtain content para where "read_text Ignore f = Inr content"
    and "para \<in> set (raw_paragraphs U content)"
    and s: "s = \<lparr>file_str = str_path (doc_path f),
                  score = simple_score U (strip (is_space U) para) q,
                  snippet = shorten (strip (is_space U) para)\<rparr>"
    by blast
  moreover from s have "snippet s = shorten (strip (is_space U) para)"
    by simp
  moreover from s have "score s = simple_score U (strip (is_space U) para) q"
    by simp
  ultimately show ?thesis
    by (auto simp: simple_score_def)
qed

theorem score_is_sum_over_token_list_witness:
  "search_in_file ascii_rt dup_doc (lit ''error error'') 3
     = Inr [\<lparr>file_str = lit ''/docs/e.md'', score = 2, snippet = lit ''an error''\<rparr>] \<and>
   (\<exists>content. read_text Ignore dup_doc = Inr content \<and>
      (\<exists>para \<in> set (raw_paragraphs ascii_rt content).
         lit ''an error'' = shorten (strip (is_space ascii_rt) para) \<and>
         2 = (\<Sum>tok\<leftarrow>filter (\<lambda>tok. tok \<noteq> [])
                          (findall_words (is_word ascii_rt) (str_lower ascii_rt (lit ''error error''))).
                int (count_str (str_lower ascii_rt (strip (is_space ascii_rt) para)) tok))))"
proof -
  have mem: "\<lparr>file_str = lit ''/docs/e.md'', score = 2, snippet = lit ''an error''\<rparr>
               \<in> set [\<lparr>file_str = lit ''/docs/e.md'', score = 2, snippet = lit ''an error''\<rparr>]"
    by simp
  from score_is_sum_over_token_list [OF dup_search_in_file mem] dup_search_in_file
  show ?thesis by simp
qed

text \<open>
  The claim C1 as it is written, with the set of the words, fails for a query that says
  a word twice: the paragraph \<open>an error\<close> gets the score 2 for the query \<open>error error\<close>,
  and the sum over the set of the words is 1.
\<close>

theorem score_over_token_set_counterexample:
  "search_in_file ascii_rt dup_doc (lit ''error error'') 3
     = Inr [\<lparr>file_str = lit ''/docs/e.md'', score = 2, snippet = lit ''an error''\<rparr>] \<and>
   read_text Ignore dup_doc = Inr (lit ''an error'') \<and>
   raw_paragraphs ascii_rt (lit ''an error'') = [lit ''an error''] \<and>
   strip (is_space ascii_rt) (lit ''an error'') = lit ''an error'' \<and>
   score_over_token_set ascii_rt (lit ''an error'') (lit ''error error'') = 1"
proof -
  have "raw_paragraphs ascii_rt (lit ''an error'') = [lit ''an error'']"
    by code_simp
  moreover have "strip (is_space ascii_rt) (lit ''an error'') = lit ''an error''"
    by code_simp
  ultimately show ?thesis
    by (simp add: dup_search_in_file dup_set_score dup_read_text)
qed

text \<open>
  C2. Every snippet that the per-file search returns has a text of at most 600 code
  points and the three dots of the marker. Its score is the score of the whole stripped
  paragraph also when that paragraph is longer than 600 code points and the text is its
  first 600 code points and the marker: the cut comes after the score and does not
  change it.
\<close>

theorem snippet_cut_after_scoring:
  assumes "search_in_file U f q n = Inr res" and "s \<in> set res"
  shows "length (snippet s) \<le> 600 + length (lit ''...'') \<and>
         (\<exists>content. read_text Ignore f = Inr content \<and>
            (\<exists>para \<in> set (raw_paragraphs U content).
               score s = simple_score U (strip (is_space U) para) q \<and>
               (if 600 < length (strip (is_space U) para)
                then snippet s = take 600 (strip (is_space U) para) @ lit ''...''
                else snippet s = strip (is_space U) para)))"
proof -
  from assms have "s \<in> set (file_snippets U f q)"
    using search_in_file_set by blast
  from file_snippets_member [OF this]
  obtain content para where c: "read_text Ignore f = Inr content"
    and p: "para \<in> set (raw_paragraphs U content)"
    and s: "s = \<lparr>file_str = str_path (doc_path f),
                  score = simple_score U (strip (is_space U) para) q,
                  snippet = shorten (strip (is_space U) para)\<rparr>"
    by blast
  from s have len: "length (snippet s) \<le> 600 + length (lit ''...'')"
    using length_shorten [of "strip (is_space U) para"] by (simp add: lit_def)
  from s have sc: "score s = simple_score U (strip (is_space U) para) q"
    by simp
  from s have cut: "if 600 < length (strip (is_space U) para)
                    then snippet s = take 600 (strip (is_space U) para) @ lit ''...''
                    else snippet s = strip (is_space U) para"
    by (simp add: shorten_def)
  from len c p sc cut show ?thesis by blast
qed

theorem snippet_cut_after_scoring_witness:
  "search_in_file ascii_rt long_doc (lit ''error'') 3
     = Inr [\<lparr>file_str = lit ''/docs/l.md'', score = 1,
             snippet = replicate 600 120 @ lit ''...''\<rparr>] \<and>
   length (replicate 600 (120::nat) @ lit ''...'') \<le> 600 + length (lit ''...'') \<and>
   length long_para = 606 \<and>
   simple_score ascii_rt long_para (lit ''error'') = 1 \<and>
   simple_score ascii_rt (replicate 600 120 @ lit ''...'') (lit ''error'') = 0"
proof -
  have mem: "\<lparr>file_str = lit ''/docs/l.md'', score = 1, snippet = replicate 600 120 @ lit ''...''\<rparr>
               \<in> set [\<lparr>file_str = lit ''/docs/l.md'', score = 1,
                        snippet = replicate 600 120 @ lit ''...''\<rparr>]"
    by simp
  have "length long_para = 606"
    by (simp add: long_para_def lit_def)
  with snippet_cut_after_scoring [OF long_search_in_file mem] show ?thesis
    by (simp add: long_search_in_file long_para_score long_cut_score)
qed

text \<open>
  C3. The per-file search, called with the fixed cap of 3 as the aggregator calls it,
  returns at most 3 snippets for every document and query, and the aggregate search,
  when it returns, returns at most \<open>max_results\<close> snippets for every corpus and every
  \<open>max_results\<close> from 1 to 20.
\<close>

theorem result_counts:
  assumes "1 \<le> m" and "m \<le> 20"
  shows "(\<exists>res. search_in_file U f q 3 = Inr res \<and> length res \<le> 3) \<and>
         (\<forall>out. search_docs_internal U env q m = Inr out \<longrightarrow> int (length out) \<le> m)"
proof -
  have "length (slice_to 3 (sort_by_score (file_snippets U f q))) \<le> nat 3"
    by (rule length_slice_to) simp
  then have per_file: "\<exists>res. search_in_file U f q 3 = Inr res \<and> length res \<le> 3"
    by (simp add: search_in_file_eq)
  have "int (length out) \<le> m" if "search_docs_internal U env q m = Inr out" for out
  proof -
    from search_docs_internal_Inr [OF that] obtain xs where "out = slice_to m xs"
      by blast
    moreover have "length (slice_to m xs) \<le> nat m"
      by (rule length_slice_to) (use assms in simp)
    ultimately show ?thesis using assms by simp
  qed
  with per_file show ?thesis by blast
qed

theorem result_counts_witness:
  "(1::int) \<le> 2 \<and> (2::int) \<le> 20 \<and>
   length (file_snippets ascii_rt ties_doc (lit ''error'')) = 4 \<and>
   (\<exists>res. search_in_file ascii_rt ties_doc (lit ''error'') 3 = Inr res \<and> length res = 3) \<and>
   (\<exists>out. search_docs_internal ascii_rt sample_env (lit ''error'') 5 = Inr out \<and> length out = 3) \<and>
   (\<exists>out. search_docs_internal ascii_rt sample_env (lit ''error'') 2 = Inr out \<and>
          length out = 2 \<and> int (length out) \<le> 2)"
  using result_counts [where m = 2 and U = ascii_rt and f = ties_doc and q = "lit ''error''"
      and env = sample_env]
  by (simp add: ties_search_in_file ties_file_snippets sample_search_docs_internal
      sample_search_docs_internal_2)

text \<open>
  C4. The result of the per-file search and the result of the aggregate search are
  sorted by score, highest first, and the sort is stable: for every score, the returned
  snippets of that score stand in the order in which they were produced. For the
  per-file search that is the order of the paragraphs of the document; for the aggregate
  search it is the order of the per-file results in the scan, and so, document by
  document in the order of the scan, again the order of the paragraphs. The aggregate
  search has a result when the scan of the root returns.
\<close>

theorem results_sorted_and_stable:
  "(\<exists>res. search_in_file U f q n = Inr res \<and>
      sorted_wrt (\<lambda>a b. score b \<le> score a) res \<and>
      prefix (filter (\<lambda>x. score x = k) res)
             (filter (\<lambda>x. score x = k) (file_snippets U f q))) \<and>
   (\<forall>fs. iter_doc_files U env = Inr fs \<longrightarrow>
      (\<exists>merged out.
         all_snippets U q fs = Inr merged \<and>
         search_docs_internal U env q m = Inr out \<and>
         sorted_wrt (\<lambda>a b. score b \<le> score a) out \<and>
         prefix (filter (\<lambda>x. score x = k) out) (filter (\<lambda>x. score x = k) merged) \<and>
         subseq (filter (\<lambda>x. score x = k) out)
                (filter (\<lambda>x. score x = k) (concat (map (\<lambda>g. file_snippets U g q) fs)))))"
proof -
  let ?P = "\<lambda>x. score x = k"
  let ?top = "\<lambda>g j. slice_to j (sort_by_score (file_snippets U g q))"
  have s1: "sorted_wrt (\<lambda>a b. score b \<le> score a) (?top g j)" for g j
    by (intro sorted_wrt_slice_to sorted_sort_by_score)
  have p1: "prefix (filter ?P (?top g j)) (filter ?P (file_snippets U g q))" for g j
    using prefix_filter_slice_to [of ?P j "sort_by_score (file_snippets U g q)"]
    by (simp add: stable_sort_by_score)
  have per_file: "\<exists>res. search_in_file U f q n = Inr res \<and>
      sorted_wrt (\<lambda>a b. score b \<le> score a) res \<and>
      prefix (filter ?P res) (filter ?P (file_snippets U f q))"
    using s1 p1 by (simp add: search_in_file_eq)
  have aggregate: "\<exists>merged out.
         all_snippets U q fs = Inr merged \<and>
         search_docs_internal U env q m = Inr out \<and>
         sorted_wrt (\<lambda>a b. score b \<le> score a) out \<and>
         prefix (filter ?P out) (filter ?P merged) \<and>
         subseq (filter ?P out) (filter ?P (concat (map (\<lambda>g. file_snippets U g q) fs)))"
    if scan: "iter_doc_files U env = Inr fs" for fs
  proof -
    let ?merged = "concat (map (\<lambda>g. ?top g 3) fs)"
    let ?out = "slice_to m (sort_by_score ?merged)"
    have m: "all_snippets U q fs = Inr ?merged"
      by (rule all_snippets_eq)
    have out: "search_docs_internal U env q m = Inr ?out"
      by (rule search_docs_internal_eq [OF scan])
    have s2: "sorted_wrt (\<lambda>a b. score b \<le> score a) ?out"
      by (intro sorted_wrt_slice_to sorted_sort_by_score)
    have p2: "prefix (filter ?P ?out) (filter ?P ?merged)"
      using prefix_filter_slice_to [of ?P m "sort_by_score ?merged"]
      by (simp add: stable_sort_by_score)
    have "subseq (concat (map (\<lambda>g. filter ?P (?top g 3)) fs))
                 (concat (map (\<lambda>g. filter ?P (file_snippets U g q)) fs))"
      by (rule subseq_concat_map) (rule prefix_imp_subseq [OF p1])
    then have "subseq (filter ?P ?merged)
                      (filter ?P (concat (map (\<lambda>g. file_snippets U g q) fs)))"
      by (simp add: filter_concat comp_def)
    with prefix_imp_subseq [OF p2]
    have p3: "subseq (filter ?P ?out)
                     (filter ?P (concat (map (\<lambda>g. file_snippets U g q) fs)))"
      by (rule subseq_order.trans)
    from m out s2 p2 p3 show ?thesis by blast
  qed
  from per_file aggregate show ?thesis by blast
qed

theorem results_sorted_and_stable_witness:
  "search_in_file ascii_rt ties_doc (lit ''error'') 3
     = Inr [\<lparr>file_str = lit ''/docs/t.md'', score = 2, snippet = lit ''error error''\<rparr>,
            \<lparr>file_str = lit ''/docs/t.md'', score = 1, snippet = lit ''error one''\<rparr>,
            \<lparr>file_str = lit ''/docs/t.md'', score = 1, snippet = lit ''error two''\<rparr>] \<and>
   prefix [\<lparr>file_str = lit ''/docs/t.md'', score = 1, snippet = lit ''error one''\<rparr>,
           \<lparr>file_str = lit ''/docs/t.md'', score = 1, snippet = lit ''error two''\<rparr>]
      (filter (\<lambda>x. score x = 1) (file_snippets ascii_rt ties_doc (lit ''error''))) \<and>
   iter_doc_files ascii_rt sample_env = Inr [sample_doc, sample_doc_b, unreadable_doc] \<and>
   (\<exists>out. search_docs_internal ascii_rt sample_env (lit ''error'') 5 = Inr out \<and>
          sorted_wrt (\<lambda>a b. score b \<le> score a) out \<and> length out = 3)"
  using results_sorted_and_stable [where U = ascii_rt and f = ties_doc and q = "lit ''error''"
      and n = 3 and k = 1 and env = sample_env and m = 5]
  by (simp add: ties_search_in_file sample_iter_doc_files sample_search_docs_internal)

text \<open>
  C5. No snippet with a score of zero or less is in the result of the per-file search,
  for every document, query and limit, and so none is in a result of the aggregate
  search.
\<close>

theorem no_snippet_without_score:
  "(\<exists>res. search_in_file U f q n = Inr res \<and> (\<forall>s \<in> set res. 0 < score s)) \<and>
   (\<forall>out. search_docs_internal U env q m = Inr out \<longrightarrow> (\<forall>s \<in> set out. 0 < score s))"
proof -
  have pos: "0 < score s" if "s \<in> set (file_snippets U g q)" for s g
    using file_snippets_member [OF that] by auto
  have "\<forall>s \<in> set (slice_to n (sort_by_score (file_snippets U f q))). 0 < score s"
    using set_slice_to [of n "sort_by_score (file_snippets U f q)"] pos by auto
  then have per_file: "\<exists>res. search_in_file U f q n = Inr res \<and> (\<forall>s \<in> set res. 0 < score s)"
    by (simp add: search_in_file_eq)
  have "0 < score s" if "search_docs_internal U env q m = Inr out" and "s \<in> set out" for out s
    using search_docs_internal_member [OF that] pos by blast
  with per_file show ?thesis by blast
qed

theorem no_snippet_without_score_witness:
  "search_in_file ascii_rt sample_doc (lit ''error'') 3
     = Inr [\<lparr>file_str = lit ''/docs/a.md'', score = 2, snippet = lit ''error timeout error''\<rparr>,
            \<lparr>file_str = lit ''/docs/a.md'', score = 1, snippet = lit ''An Error''\<rparr>] \<and>
   search_docs_internal ascii_rt sample_env (lit ''error'') 5
     = Inr [\<lparr>file_str = lit ''/docs/a.md'', score = 2, snippet = lit ''error timeout error''\<rparr>,
            \<lparr>file_str = lit ''/docs/a.md'', score = 1, snippet = lit ''An Error''\<rparr>,
            \<lparr>file_str = lit ''/docs/sub/b.TXT'', score = 1, snippet = lit ''the error''\<rparr>] \<and>
   (0::int) < score \<lparr>file_str = lit ''/docs/a.md'', score = 1, snippet = lit ''An Error''\<rparr> \<and>
   (0::int) < score \<lparr>file_str = lit ''/docs/sub/b.TXT'', score = 1, snippet = lit ''the error''\<rparr>"
  using no_snippet_without_score [where U = ascii_rt and f = sample_doc and q = "lit ''error''"
      and n = 3 and env = sample_env and m = 5]
  by (simp add: sample_search_in_file sample_search_docs_internal)

text \<open>
  C6, as the code has it. When the root directory does not exist or is not a directory,
  and the operating system does not refuse the \<open>stat\<close> of the root with an error that
  pathlib raises again, and \<open>_get_docs_dir\<close> returns, the scanner returns no files and
  raises nothing, and the aggregate search over such a root returns the empty list.
\<close>

theorem missing_root_gives_nothing:
  assumes "get_docs_dir env = Inr base"
      and "kind (root env) \<noteq> Directory"
      and "\<forall>e. stat_error (root env) = Some e \<longrightarrow> ignore_error e"
  shows "iter_doc_files U env = Inr [] \<and> search_docs_internal U env q m = Inr []"
proof -
  have "path_exists (root env) = Inr False \<or>
        (path_exists (root env) = Inr True \<and> is_dir (root env) = Inr False)"
  proof (cases "stat_error (root env)")
    case None
    with assms(2) show ?thesis
      by (simp add: path_exists_def is_dir_def stat_def ignore_error_def)
  next
    case (Some e)
    with assms(3) have "ignore_error e" by simp
    with Some show ?thesis
      by (simp add: path_exists_def stat_def)
  qed
  with assms(1) have "iter_doc_files U env = Inr []"
    by (auto simp: iter_doc_files_def)
  then show ?thesis
    by (simp add: search_docs_internal_def)
qed

theorem missing_root_gives_nothing_witness:
  "get_docs_dir missing_root_env = Inr [lit ''docs''] \<and>
   kind (root missing_root_env) = Missing \<and>
   stat_error (root missing_root_env) = None \<and>
   iter_doc_files ascii_rt missing_root_env = Inr [] \<and>
   search_docs_internal ascii_rt missing_root_env (lit ''error'') 5 = Inr []"
proof -
  have dir: "get_docs_dir missing_root_env = Inr [lit ''docs'']"
    by (simp add: missing_root_env_def)
  have gone: "kind (root missing_root_env) \<noteq> Directory"
    by (simp add: missing_root_env_def)
  have asked: "\<forall>e. stat_error (root missing_root_env) = Some e \<longrightarrow> ignore_error e"
    by (simp add: missing_root_env_def)
  from missing_root_gives_nothing [OF dir gone asked, where U = ascii_rt and q = "lit ''error''"
      and m = 5]
  show ?thesis
    by (simp add: missing_root_env_def)
qed

text \<open>
  The claim C6 as it is written fails for a root that does not exist below a directory
  that may not be searched: \<open>stat\<close> is refused with \<open>EACCES\<close>, \<open>Path.exists\<close> raises the
  \<open>PermissionError\<close>, and the scanner and the aggregate search raise it too.
\<close>

theorem missing_root_counterexample:
  "kind (root denied_root_env) = Missing \<and>
   stat_error (root denied_root_env) = Some EACCES \<and>
   iter_doc_files ascii_rt denied_root_env = Inl (OSError EACCES) \<and>
   search_docs_internal ascii_rt denied_root_env (lit ''error'') 5 = Inl (OSError EACCES)"
  using denied_root_scan by (simp add: denied_root_env_def)

text \<open>
  C7, as the code has it. A document whose read fails with an \<open>OSError\<close> gives no
  snippets and no exception in the per-file search. When the scan of the root returns,
  an aggregate search over documents among which it stands returns what the search over
  the other documents returns: their per-file results are merged and ranked as if the
  unreadable document were not there, and as many snippets are returned as the limit
  allows. Bytes that cannot be decoded are never fatal: whatever the bytes of a
  document are, reading it with \<open>errors="ignore"\<close> gives a text, and the per-file search
  returns the ranked snippets of that text.
\<close>

theorem unreadable_file_isolated:
  assumes "read_bytes f = Inl e" and "iter_doc_files U env = Inr (fs1 @ f # fs2)"
  shows "search_in_file U f q n = Inr [] \<and>
         (\<exists>rs. map (\<lambda>g. search_in_file U g q 3) (fs1 @ fs2) = map Inr rs \<and>
               search_docs_internal U env q m = Inr (slice_to m (sort_by_score (concat rs))) \<and>
               (0 \<le> m \<longrightarrow> length (slice_to m (sort_by_score (concat rs)))
                              = min (nat m) (length (concat rs)))) \<and>
         (\<forall>g bs. read_bytes g = Inr bs \<longrightarrow>
            (\<exists>content. read_text Ignore g = Inr content \<and>
               search_in_file U g q n
                 = Inr (slice_to n (sort_by_score
                          (scan_paragraphs U (doc_path g) q (raw_paragraphs U content))))))"
proof -
  let ?top = "\<lambda>g. slice_to 3 (sort_by_score (file_snippets U g q))"
  from assms(1) have nothing_read: "file_snippets U f q = []"
    by (simp add: file_snippets_def read_text_def)
  then have unreadable: "search_in_file U f q j = Inr []" for j
    by (simp add: search_in_file_eq)
  have others: "map (\<lambda>g. search_in_file U g q 3) (fs1 @ fs2) = map Inr (map ?top (fs1 @ fs2))"
    by (simp add: search_in_file_eq)
  have "concat (map ?top (fs1 @ f # fs2)) = concat (map ?top (fs1 @ fs2))"
    by (simp add: nothing_read)
  with search_docs_internal_eq [OF assms(2), of q m]
  have result: "search_docs_internal U env q m
                  = Inr (slice_to m (sort_by_score (concat (map ?top (fs1 @ fs2)))))"
    by simp
  have size: "0 \<le> m \<longrightarrow> length (slice_to m (sort_by_score (concat (map ?top (fs1 @ fs2)))))
                           = min (nat m) (length (concat (map ?top (fs1 @ fs2))))"
    by (simp add: slice_to_def sort_by_score_def min.commute)
  have decoded: "\<exists>content. read_text Ignore g = Inr content \<and>
               search_in_file U g q n
                 = Inr (slice_to n (sort_by_score
                          (scan_paragraphs U (doc_path g) q (raw_paragraphs U content))))"
    if "read_bytes g = Inr bs" for g bs
    using that read_text_ignore [of g] by (auto simp: search_in_file_def)
  from unreadable others result size decoded show ?thesis by blast
qed

theorem unreadable_file_isolated_witness:
  "read_bytes unreadable_doc = Inl EACCES \<and>
   iter_doc_files ascii_rt sample_env = Inr ([sample_doc, sample_doc_b] @ unreadable_doc # []) \<and>
   search_in_file ascii_rt unreadable_doc (lit ''error'') 3 = Inr [] \<and>
   search_docs_internal ascii_rt sample_env (lit ''error'') 5
     = Inr [\<lparr>file_str = lit ''/docs/a.md'', score = 2, snippet = lit ''error timeout error''\<rparr>,
            \<lparr>file_str = lit ''/docs/a.md'', score = 1, snippet = lit ''An Error''\<rparr>,
            \<lparr>file_str = lit ''/docs/sub/b.TXT'', score = 1, snippet = lit ''the error''\<rparr>] \<and>
   read_bytes sample_doc_b = Inr sample_b \<and>
   utf8_decode Strict sample_b = Inl UnicodeDecodeError \<and>
   search_in_file ascii_rt sample_doc_b (lit ''error'') 3
     = Inr [\<lparr>file_str = lit ''/docs/sub/b.TXT'', score = 1, snippet = lit ''the error''\<rparr>]"
proof -
  have unreadable: "read_bytes unreadable_doc = Inl EACCES"
    by (simp add: unreadable_doc_def)
  have scanned: "iter_doc_files ascii_rt sample_env
                   = Inr ([sample_doc, sample_doc_b] @ unreadable_doc # [])"
    by (simp add: sample_iter_doc_files)
  have bytes: "read_bytes sample_doc_b = Inr sample_b"
    by (simp add: sample_doc_b_def)
  from unreadable_file_isolated [OF unreadable scanned, where q = "lit ''error''" and n = 3
      and m = 5]
  have "search_in_file ascii_rt unreadable_doc (lit ''error'') 3 = Inr []"
    by blast
  with unreadable scanned bytes show ?thesis
    by (simp add: sample_search_docs_internal sample_b_decode sample_b_search_in_file)
qed

text \<open>
  The claim C7 as it is written fails for a document in a directory that may be listed
  but not searched. The document cannot be read, and its per-file search would give the
  empty list; but the scanner asks \<open>is_file\<close> for it first, \<open>is_file\<close> raises the
  \<open>PermissionError\<close>, nothing catches it, and the aggregate search ends with it: the
  snippets of \<open>a.md\<close> are not returned.
\<close>

theorem unreadable_file_counterexample:
  "map rel_parts (rglob locked_env)
     = [[lit ''a.md''], [lit ''locked''], [lit ''locked'', lit ''b.md'']] \<and>
   map (\<lambda>e. is_file (entry_node e)) (rglob locked_env)
     = [Inr True, Inr False, Inl (OSError EACCES)] \<and>
   map file_bytes (rglob locked_env) = [Inr sample_a, Inl EISDIR, Inl EACCES] \<and>
   read_bytes locked_doc = Inl EACCES \<and>
   search_in_file ascii_rt locked_doc (lit ''error'') 3 = Inr [] \<and>
   read_bytes sample_doc = Inr sample_a \<and>
   search_in_file ascii_rt sample_doc (lit ''error'') 3
     = Inr [\<lparr>file_str = lit ''/docs/a.md'', score = 2, snippet = lit ''error timeout error''\<rparr>,
            \<lparr>file_str = lit ''/docs/a.md'', score = 1, snippet = lit ''An Error''\<rparr>] \<and>
   iter_doc_files ascii_rt locked_env = Inl (OSError EACCES) \<and>
   search_docs_internal ascii_rt locked_env (lit ''error'') 5 = Inl (OSError EACCES)"
proof -
  have "map rel_parts (rglob locked_env)
          = [[lit ''a.md''], [lit ''locked''], [lit ''locked'', lit ''b.md'']]"
    by (simp add: locked_env_def)
  moreover have "map (\<lambda>e. is_file (entry_node e)) (rglob locked_env)
                   = [Inr True, Inr False, Inl (OSError EACCES)]"
    by (simp add: locked_env_def is_file_def stat_def regular_def directory_def
        ignore_error_def)
  moreover have "map file_bytes (rglob locked_env) = [Inr sample_a, Inl EISDIR, Inl EACCES]"
    by (simp add: locked_env_def)
  moreover have "read_bytes locked_doc = Inl EACCES"
    by (simp add: locked_doc_def)
  moreover have "read_bytes sample_doc = Inr sample_a"
    by (simp add: sample_doc_def)
  ultimately show ?thesis
    using locked_scan locked_search_in_file sample_search_in_file by simp
qed

section \<open>Properties of the result presenter\<close>

text \<open>
  C8. When the aggregate search finds no snippet, the structured result of
  \<open>answer_from_docs\<close> has the answer \<open>None\<close>, which is not the empty string, an empty
  list of used snippets and the query as it was given. When the search finds snippets,
  the answer is a text, the one shown to the reader, and it is not empty; so the two
  results can be told apart.
\<close>

theorem no_evidence_answer_is_null:
  "(search_docs_internal U env q n = Inr [] \<longrightarrow>
      (\<exists>r. answer_from_docs U env q n = Inr r \<and>
           structured_content r = Some \<lparr>answer = None, used_snippets = [], query = q\<rparr>)) \<and>
   (\<forall>found. search_docs_internal U env q n = Inr found \<and> found \<noteq> [] \<longrightarrow>
      (\<exists>r txt. answer_from_docs U env q n = Inr r \<and> txt \<noteq> [] \<and>
         content r = [\<lparr>tc_type = lit ''text'', tc_text = txt\<rparr>] \<and>
         structured_content r
           = Some \<lparr>answer = Some txt, used_snippets = found, query = q\<rparr>))"
proof -
  have "msg_fragments_below \<noteq> []"
    by (simp add: msg_fragments_below_def)
  then have "join [10] (msg_fragments_below # xs) \<noteq> []" for xs
    by (rule join_first_nonempty)
  then show ?thesis
    by (simp add: answer_from_docs_def Let_def)
qed

theorem no_evidence_answer_is_null_witness:
  "search_docs_internal ascii_rt sample_env (lit ''xyz123'') 5 = Inr [] \<and>
   (\<exists>r. answer_from_docs ascii_rt sample_env (lit ''xyz123'') 5 = Inr r \<and>
        structured_content r
          = Some \<lparr>answer = None, used_snippets = [], query = lit ''xyz123''\<rparr>) \<and>
   (\<exists>found r ans. search_docs_internal ascii_rt sample_env (lit ''error'') 5 = Inr found \<and>
        found \<noteq> [] \<and>
        answer_from_docs ascii_rt sample_env (lit ''error'') 5 = Inr r \<and>
        structured_content r
          = Some \<lparr>answer = Some ans, used_snippets = found, query = lit ''error''\<rparr>)"
proof -
  from sample_nothing_found
    no_evidence_answer_is_null [where U = ascii_rt and env = sample_env and q = "lit ''xyz123''"
      and n = 5]
  have null: "\<exists>r. answer_from_docs ascii_rt sample_env (lit ''xyz123'') 5 = Inr r \<and>
        structured_content r
          = Some \<lparr>answer = None, used_snippets = [], query = lit ''xyz123''\<rparr>"
    by blast
  obtain found where found: "search_docs_internal ascii_rt sample_env (lit ''error'') 5 = Inr found"
    and some: "found \<noteq> []"
    using sample_search_docs_internal by simp
  from found some
    no_evidence_answer_is_null [where U = ascii_rt and env = sample_env and q = "lit ''error''"
      and n = 5]
  have "\<exists>r ans. answer_from_docs ascii_rt sample_env (lit ''error'') 5 = Inr r \<and>
        structured_content r
          = Some \<lparr>answer = Some ans, used_snippets = found, query = lit ''error''\<rparr>"
    by blast
  with sample_nothing_found null found some show ?thesis by blast
qed

text \<open>
  C9, as the code has it. When \<open>_get_docs_dir\<close> and the scan of the root return,
  \<open>list_docs\<close> returns a result. In the text for the reader every document that the
  scanner found stands with its path relative to the root directory. In the structured
  result, \<open>files\<close> holds for every such document its whole path, the path of the root
  directory with the relative path behind it, and \<open>docs_dir\<close> holds the root directory.
\<close>

theorem list_docs_paths:
  assumes "get_docs_dir env = Inr base" and "iter_doc_files U env = Inr fs"
  shows "\<exists>rels. map doc_path fs = map (\<lambda>r. base @ r) rels \<and>
     list_docs U env =
       Inr \<lparr>content =
              [\<lparr>tc_type = lit ''text'',
                tc_text =
                  (if rels = []
                   then msg_docs_missing @ str_path base @ msg_docs_create
                   else join [10] (msg_docs_found
                          # map (\<lambda>r. lit ''- '' @ str_rel_path r) rels))\<rparr>],
            structured_content =
              Some \<lparr>docs_dir = str_path base,
                    files = map (\<lambda>r. str_path (base @ r)) rels\<rparr>,
            meta = None\<rparr>"
proof -
  obtain rels where rels: "map doc_path fs = map (\<lambda>r. base @ r) rels"
    using iter_doc_files_below [OF assms] by blast
  have rel: "map (\<lambda>f. relative_to (doc_path f) base) fs = map (\<lambda>r. Some r) rels"
  proof -
    have "map (\<lambda>f. relative_to (doc_path f) base) fs
            = map (\<lambda>p. relative_to p base) (map doc_path fs)"
      by (simp add: comp_def)
    also have "\<dots> = map (\<lambda>r. Some r) rels"
      unfolding rels by (simp add: comp_def relative_to_below)
    finally show ?thesis .
  qed
  have th: "those (map (\<lambda>f. relative_to (doc_path f) base) fs) = Some rels"
    unfolding rel using those_map_Some [of "\<lambda>r. r" rels] by simp
  have fl: "map (\<lambda>f. str_path (doc_path f)) fs = map (\<lambda>r. str_path (base @ r)) rels"
  proof -
    have "map (\<lambda>f. str_path (doc_path f)) fs = map str_path (map doc_path fs)"
      by (simp add: comp_def)
    also have "\<dots> = map (\<lambda>r. str_path (base @ r)) rels"
      unfolding rels by (simp add: comp_def)
    finally show ?thesis .
  qed
  have emp: "(fs = []) = (rels = [])"
    using rels by (metis map_is_Nil_conv)
  have "list_docs U env =
       Inr \<lparr>content =
              [\<lparr>tc_type = lit ''text'',
                tc_text =
                  (if rels = []
                   then msg_docs_missing @ str_path base @ msg_docs_create
                   else join [10] (msg_docs_found
                          # map (\<lambda>r. lit ''- '' @ str_rel_path r) rels))\<rparr>],
            structured_content =
              Some \<lparr>docs_dir = str_path base,
                    files = map (\<lambda>r. str_path (base @ r)) rels\<rparr>,
            meta = None\<rparr>"
    by (simp add: list_docs_def assms Let_def th fl emp comp_def)
  with rels show ?thesis by blast
qed

theorem list_docs_paths_witness:
  "get_docs_dir sample_env = Inr [lit ''docs''] \<and>
   iter_doc_files ascii_rt sample_env = Inr [sample_doc, sample_doc_b, unreadable_doc] \<and>
   list_docs ascii_rt sample_env =
     Inr \<lparr>content =
            [\<lparr>tc_type = lit ''text'',
              tc_text = msg_docs_found @ [10] @ lit ''- a.md'' @ [10] @ lit ''- sub/b.TXT''
                        @ [10] @ lit ''- c.rst''\<rparr>],
          structured_content =
            Some \<lparr>docs_dir = lit ''/docs'',
                  files = [lit ''/docs/a.md'', lit ''/docs/sub/b.TXT'', lit ''/docs/c.rst'']\<rparr>,
          meta = None\<rparr>"
proof -
  have base: "get_docs_dir sample_env = Inr [lit ''docs'']"
    by (simp add: sample_env_def)
  have paths: "map doc_path [sample_doc, sample_doc_b, unreadable_doc]
          = [[lit ''docs'', lit ''a.md''], [lit ''docs'', lit ''sub'', lit ''b.TXT''],
             [lit ''docs'', lit ''c.rst'']]"
    by (simp add: sample_doc_def sample_doc_b_def unreadable_doc_def)
  from list_docs_paths [OF base sample_iter_doc_files]
  obtain rels where rels: "map doc_path [sample_doc, sample_doc_b, unreadable_doc]
                             = map (\<lambda>r. [lit ''docs''] @ r) rels"
    and res: "list_docs ascii_rt sample_env =
       Inr \<lparr>content =
              [\<lparr>tc_type = lit ''text'',
                tc_text =
                  (if rels = []
                   then msg_docs_missing @ str_path [lit ''docs''] @ msg_docs_create
                   else join [10] (msg_docs_found
                          # map (\<lambda>r. lit ''- '' @ str_rel_path r) rels))\<rparr>],
            structured_content =
              Some \<lparr>docs_dir = str_path [lit ''docs''],
                    files = map (\<lambda>r. str_path ([lit ''docs''] @ r)) rels\<rparr>,
            meta = None\<rparr>"
    by blast
  from rels have "map (\<lambda>r. [lit ''docs''] @ r) rels
                    = map (\<lambda>r. [lit ''docs''] @ r)
                        [[lit ''a.md''], [lit ''sub'', lit ''b.TXT''], [lit ''c.rst'']]"
    unfolding paths by simp
  then have "rels = [[lit ''a.md''], [lit ''sub'', lit ''b.TXT''], [lit ''c.rst'']]"
    by (subst (asm) inj_map_eq_map) (auto simp: inj_on_def)
  with res base sample_iter_doc_files show ?thesis
    by (simp add: str_path_def str_rel_path_def lit_def)
qed

text \<open>
  The claim C9 as it is written fails for the structured half: for the sample corpus
  below \<open>/docs\<close> the list \<open>files\<close> holds \<open>/docs/a.md\<close>, \<open>/docs/sub/b.TXT\<close> and
  \<open>/docs/c.rst\<close>, not the relative paths \<open>a.md\<close>, \<open>sub/b.TXT\<close> and \<open>c.rst\<close> that the
  text for the reader shows.
\<close>

theorem list_docs_files_counterexample:
  "map_option files (structured_content (projr (list_docs ascii_rt sample_env)))
     = Some [lit ''/docs/a.md'', lit ''/docs/sub/b.TXT'', lit ''/docs/c.rst''] \<and>
   [lit ''/docs/a.md'', lit ''/docs/sub/b.TXT'', lit ''/docs/c.rst'']
     \<noteq> [lit ''a.md'', lit ''sub/b.TXT'', lit ''c.rst''] \<and>
   \<not> isl (list_docs ascii_rt sample_env)"
  by (simp add: sample_list_docs) (simp add: lit_def)

section \<open>What the score counts\<close>

text \<open>
  C10. What a word of the query adds to the score is the number of its non-overlapping
  occurrences in the lowered paragraph, as \<open>str.count\<close> counts them: the score is the sum
  of \<open>count_str\<close> over the words, and for every word there are as many positions as
  \<open>count_str\<close> says at which the word occurs, each at least the length of the word behind
  the one before, and every occurrence of the word starts inside one of them, the
  occurrences having been picked from left to right. So \<open>aa\<close> adds 2 for \<open>aaaa\<close>, where
  it occurs at 3 positions.
\<close>

theorem score_counts_non_overlapping:
  "simple_score U txt q
     = (\<Sum>tok\<leftarrow>findall_words (is_word U) (str_lower U q). int (count_str (str_lower U txt) tok)) \<and>
   (\<forall>tok \<in> set (findall_words (is_word U) (str_lower U q)).
      \<exists>ps. length ps = count_str (str_lower U txt) tok \<and>
           (\<forall>i \<in> set ps. occurs_at (str_lower U txt) tok i) \<and>
           sorted_wrt (\<lambda>i j. i + length tok \<le> j) ps \<and>
           (\<forall>j. occurs_at (str_lower U txt) tok j
                \<longrightarrow> (\<exists>i \<in> set ps. i \<le> j \<and> j < i + length tok)))"
  using simple_score_sum count_str_positions findall_words_nonempty by blast

theorem score_counts_non_overlapping_witness:
  "lit ''aa'' \<in> set (findall_words (is_word ascii_rt) (str_lower ascii_rt (lit ''aa''))) \<and>
   simple_score ascii_rt (lit ''aaaa'') (lit ''aa'') = 2 \<and>
   count_str (lit ''aaaa'') (lit ''aa'') = 2 \<and>
   count_overlapping (lit ''aaaa'') (lit ''aa'') = 3 \<and>
   (\<exists>ps. length ps = 2 \<and> sorted_wrt (\<lambda>i j. i + length (lit ''aa'') \<le> j) ps)"
proof -
  have toks: "findall_words (is_word ascii_rt) (str_lower ascii_rt (lit ''aa'')) = [lit ''aa'']"
    by code_simp
  have low: "str_lower ascii_rt (lit ''aaaa'') = lit ''aaaa''"
    by code_simp
  from score_counts_non_overlapping [of ascii_rt "lit ''aaaa''" "lit ''aa''"]
  have "simple_score ascii_rt (lit ''aaaa'') (lit ''aa'') = int (count_str (lit ''aaaa'') (lit ''aa''))"
    and "\<exists>ps. length ps = count_str (lit ''aaaa'') (lit ''aa'') \<and>
               sorted_wrt (\<lambda>i j. i + length (lit ''aa'') \<le> j) ps"
    unfolding toks low by auto
  then show ?thesis
    using aaaa_counts by (simp add: toks)
qed

end
